theory Spec2Isabelle
  imports Main
begin

section \<open>JavaScript values, errors and results\<close>

text \<open>
  Values as the client handles them. Objects that are only read or copied at the top level
  are structural (\<open>JObj\<close>, own properties in insertion order); \<open>JUndefined\<close> is the
  value of a missing property and of an out-of-range array read.
\<close>

datatype jsval =
    JUndefined
  | JNull
  | JBool bool
  | JNum int
  | JStr string
  | JObj "(string \<times> jsval) list"

text \<open>Truthiness, as tested by \<open>if (x)\<close> and \<open>!x\<close>.\<close>

fun js_truthy :: "jsval \<Rightarrow> bool" where
  "js_truthy JUndefined = False"
| "js_truthy JNull = False"
| "js_truthy (JBool b) = b"
| "js_truthy (JNum n) = (n \<noteq> 0)"
| "js_truthy (JStr s) = (s \<noteq> [])"
| "js_truthy (JObj _) = True"

text \<open>
  Everything the code can throw: the runtime's own errors (an unresolvable identifier, a call
  on \<open>undefined\<close>), \<open>new Error(msg)\<close>, and a thrown string.
\<close>

datatype error =
    ReferenceError string
  | TypeError string
  | Error string
  | ThrownString string

section \<open>Plain objects used as dictionaries\<close>

text \<open>
  \<open>this.cache\<close>, \<open>this.modelTypes\<close> and \<open>this._map\<close> are created with \<open>{}\<close> and read
  with \<open>obj[key]\<close>. Such a read finds the properties stored on the object and, for a key
  that was not stored, the members that every object inherits from \<open>Object.prototype\<close>.
  The inherited members are functions, and for \<open>__proto__\<close> the prototype object itself:
  truthy values that have none of the properties or methods of the stored values.
  \<open>delete obj[key]\<close> removes a stored property only. The list below has the property
  names of \<open>Object.prototype\<close> in ECMAScript, those of its Annex B included.
\<close>

definition object_prototype_members :: "string list" where
  "object_prototype_members =
     [''constructor'', ''hasOwnProperty'', ''isPrototypeOf'', ''propertyIsEnumerable'',
      ''toLocaleString'', ''toString'', ''valueOf'', ''__defineGetter__'', ''__defineSetter__'',
      ''__lookupGetter__'', ''__lookupSetter__'', ''__proto__'']"

datatype 'a property = Own 'a | Inherited | Missing

definition get_property :: "(string \<rightharpoonup> 'a) \<Rightarrow> string \<Rightarrow> 'a property" where
  "get_property m k =
     (case m k of
        Some v \<Rightarrow> Own v
      | None \<Rightarrow> if k \<in> set object_prototype_members then Inherited else Missing)"

section \<open>ResCollection\<close>

text \<open>
  \<open>src/class/ResCollection.js\<close>. The fields \<open>_idCallback\<close>, \<open>_map\<close> and \<open>_list\<close>;
  \<open>_map\<close> is \<open>null\<close> without an id callback and \<open>_list\<close> is \<open>null\<close> until
  \<open>__init\<close> has run. The id callback is taken with \<open>String(...)\<close> already applied.
\<close>

record ResCollection =
  c_idCallback :: "(jsval \<Rightarrow> string) option"
  c_map :: "(string \<rightharpoonup> jsval) option"
  c_list :: "jsval list option"

definition ResCollection_new :: "(jsval \<Rightarrow> string) option \<Rightarrow> ResCollection" where
  "ResCollection_new cb =
     \<lparr> c_idCallback = cb,
       c_map = (if cb = None then None else Some Map.empty),
       c_list = None \<rparr>"

text \<open>
  \<open>this._map[id]\<close> used as a condition: a missing key reads \<open>undefined\<close>, an inherited
  member is truthy.
\<close>

definition map_has :: "(string \<rightharpoonup> jsval) \<Rightarrow> string \<Rightarrow> bool" where
  "map_has m k =
     (case get_property m k of
        Own v \<Rightarrow> js_truthy v
      | Inherited \<Rightarrow> True
      | Missing \<Rightarrow> False)"

text \<open>
  The \<open>forEach\<close> of \<open>__init\<close>: each item is stored under its id; an id whose slot already
  holds a truthy value throws, leaving the map as filled so far.
\<close>

fun init_loop :: "(jsval \<Rightarrow> string) \<Rightarrow> (string \<rightharpoonup> jsval) \<Rightarrow> jsval list
    \<Rightarrow> error option \<times> (string \<rightharpoonup> jsval)" where
  "init_loop cb m [] = (None, m)"
| "init_loop cb m (v # vs) =
     (let id = cb v in
      if map_has m id then (Some (Error (''Duplicate id - '' @ id)), m)
      else init_loop cb (m(id \<mapsto> v)) vs)"

definition ResCollection_init :: "ResCollection \<Rightarrow> jsval list option
    \<Rightarrow> error option \<times> ResCollection" where
  "ResCollection_init c data =
     (let l = (case data of None \<Rightarrow> [] | Some d \<Rightarrow> d);
          c1 = c\<lparr>c_list := Some l\<rparr>
      in case c_idCallback c1 of
           None \<Rightarrow> (None, c1)
         | Some cb \<Rightarrow>
             (case init_loop cb Map.empty l of
                (e, m) \<Rightarrow> (e, c1\<lparr>c_map := Some m\<rparr>)))"

text \<open>
  \<open>Array.prototype.splice(idx, 0, item)\<close>: a negative start counts from the end, a start
  beyond the length is the length.
\<close>

definition splice_start :: "'a list \<Rightarrow> int \<Rightarrow> nat" where
  "splice_start xs idx =
     (let len = int (length xs)
      in nat (if idx < 0 then max (len + idx) 0 else min idx len))"

definition splice_insert :: "'a list \<Rightarrow> int \<Rightarrow> 'a \<Rightarrow> 'a list" where
  "splice_insert xs idx x = (let k = splice_start xs idx in take k xs @ x # drop k xs)"

text \<open>
  \<open>__add(item, idx)\<close>. With an id callback the next statement evaluates
  \<open>this._idCallback(v)\<close>, and \<open>v\<close> is not bound anywhere in the method or the module: the
  read throws a ReferenceError, after the splice and before the map is touched. Calling the
  method before \<open>__init\<close> fails on \<open>null.splice\<close>.
\<close>

definition ResCollection_add :: "ResCollection \<Rightarrow> jsval \<Rightarrow> int \<Rightarrow> error option \<times> ResCollection" where
  "ResCollection_add c item idx =
     (case c_list c of
        None \<Rightarrow> (Some (TypeError ''null.splice''), c)
      | Some l \<Rightarrow>
          (let c1 = c\<lparr>c_list := Some (splice_insert l idx item)\<rparr>
           in if c_idCallback c1 \<noteq> None
              then (Some (ReferenceError ''v''), c1)
              else (None, c1)))"

text \<open>
  \<open>__remove(idx)\<close>, where \<open>None\<close> is an \<open>idx\<close> that is \<open>undefined\<close>: the item read
  at \<open>idx\<close> (\<open>undefined\<close> outside the list and for an undefined index) is returned, and
  \<open>splice(idx, 1)\<close> removes one element at the start position, which is 0 for an
  undefined index. With an id callback the key \<open>idCallback(item)\<close> is deleted from the map.
\<close>

definition splice_remove :: "'a list \<Rightarrow> int option \<Rightarrow> 'a list" where
  "splice_remove xs idx =
     (let k = (case idx of None \<Rightarrow> 0 | Some i \<Rightarrow> splice_start xs i)
      in take k xs @ drop (Suc k) xs)"

definition ResCollection_remove :: "ResCollection \<Rightarrow> int option \<Rightarrow> (error + jsval) \<times> ResCollection" where
  "ResCollection_remove c idx =
     (case c_list c of
        None \<Rightarrow> (Inl (TypeError ''null[idx]''), c)
      | Some l \<Rightarrow>
          (let item = (case idx of
                         None \<Rightarrow> JUndefined
                       | Some i \<Rightarrow> if 0 \<le> i \<and> i < int (length l) then l ! nat i else JUndefined);
               c1 = c\<lparr>c_list := Some (splice_remove l idx)\<rparr>
           in case c_idCallback c1 of
                None \<Rightarrow> (Inr item, c1)
              | Some cb \<Rightarrow>
                  (case c_map c1 of
                     None \<Rightarrow> (Inl (TypeError ''delete null[id]''), c1)
                   | Some m \<Rightarrow> (Inr item, c1\<lparr>c_map := Some (m(cb item := None))\<rparr>))))"

text \<open>
  \<open>indexOf(item)\<close> is \<open>return this._list.indexOf(id)\<close>: the argument expression reads
  the unbound identifier \<open>id\<close>, which throws before \<open>Array.prototype.indexOf\<close> is called.
  The receiver \<open>this._list.indexOf\<close> is evaluated first, so an uninitialised list fails on
  \<open>null.indexOf\<close>.
\<close>

definition ResCollection_indexOf :: "ResCollection \<Rightarrow> jsval \<Rightarrow> error + int" where
  "ResCollection_indexOf c item =
     (case c_list c of
        None \<Rightarrow> Inl (TypeError ''null.indexOf'')
      | Some l \<Rightarrow> Inl (ReferenceError ''id''))"

text \<open>
  The documented behaviour of \<open>indexOf\<close>, for comparison with the code: the index of the first
  matching item, -1 if there is none.
\<close>

fun first_index :: "jsval list \<Rightarrow> jsval \<Rightarrow> int" where
  "first_index [] x = -1"
| "first_index (y # ys) x =
     (if y = x then 0 else (let r = first_index ys x in if r < 0 then -1 else r + 1))"

section \<open>The client state\<close>

type_synonym rid = string
type_synonym addr = nat

text \<open>
  The bound item of a cache entry. Of a collection only the resource ids of its models, in
  order, are read by the client (\<open>model.getResourceId()\<close> while iterating).
\<close>

datatype resource = ModelItem | CollectionItem "rid list"

text \<open>
  The promise stored on a cache entry by \<open>getResource\<close> is the one built for the entry at
  that address.
\<close>

datatype promise = SubscribePromise addr

text \<open>
  Modelled from the spec: the class \<open>CacheItem\<close> (\<open>./CacheItem\<close> is imported by the client
  and is not among the sources). Section 3 of the specification gives its fields: \<open>rid\<close>,
  the kind (known once an item is bound), \<open>item\<close>, the counters \<open>direct\<close> and
  \<open>indirect\<close>, the flag \<open>subscribed\<close> and the optional \<open>promise\<close>. A new entry has
  no item, is not a collection, has both counters 0 and is not subscribed.
\<close>

record CacheItem =
  ci_rid :: rid
  ci_item :: "resource option"
  ci_isCollection :: bool
  direct :: int
  indirect :: int
  subscribed :: bool
  ci_promise :: "promise option"

definition CacheItem_new :: "rid \<Rightarrow> CacheItem" where
  "CacheItem_new r =
     \<lparr> ci_rid = r, ci_item = None, ci_isCollection = False,
       direct = 0, indirect = 0, subscribed = False, ci_promise = None \<rparr>"

text \<open>
  What runs when a request completes: the \<open>then\<close>/\<open>catch\<close> handlers chained on the promise
  that \<open>_send\<close> returned, named by the place that chained them.
\<close>

datatype continuation =
    K_getResource addr rid
  | K_unsubscribe addr
  | K_failedSubscribe addr
  | K_caller

record pending =
  p_method :: string
  p_params :: jsval
  p_k :: continuation

record request =
  req_id :: nat
  req_method :: string
  req_params :: jsval

record modelType =
  mt_id :: string
  mt_factory :: nat

text \<open>
  The fields of \<open>ResClient\<close> that the modelled methods read or write. Cache entries are
  objects shared between the cache and the closures that captured them, so they live in a
  heap and the cache maps a resource id to an address. \<open>sent\<close> is what has been written to
  the socket, \<open>awaiting\<close> the sends chained on a pending \<open>connect()\<close>, \<open>timers\<close> the
  pending \<open>setTimeout\<close> calls of \<open>_setStale\<close>, \<open>rejected\<close> the requests whose promise
  was rejected while being created. \<open>objs\<close> holds the plain objects that callers pass by
  reference.
\<close>

record client =
  connected :: bool
  tryConnect :: bool
  connectPromise :: bool
  ws :: bool
  awaiting :: "(string \<times> jsval \<times> continuation) list"
  requests :: "nat \<rightharpoonup> pending"
  reqId :: nat
  sent :: "request list"
  rejected :: "(nat \<times> error) list"
  heap :: "addr \<Rightarrow> CacheItem"
  next_addr :: addr
  cache :: "rid \<rightharpoonup> addr"
  modelTypes :: "string \<rightharpoonup> modelType"
  timers :: "rid list"
  objs :: "nat \<rightharpoonup> (string \<times> jsval) list"
  next_obj :: nat

text \<open>The constructor: no connection, request ids start at 1, empty cache and registry.\<close>

definition ResClient_new :: client where
  "ResClient_new =
     \<lparr> connected = False, tryConnect = False, connectPromise = False, ws = False,
       awaiting = [], requests = Map.empty, reqId = 1, sent = [], rejected = [],
       heap = (\<lambda>_. CacheItem_new []), next_addr = 0, cache = Map.empty,
       modelTypes = Map.empty, timers = [], objs = Map.empty, next_obj = 0 \<rparr>"

section \<open>Model type registry\<close>

text \<open>
  The regular expression \<open>/^[^.]+\.[^.]+$/\<close>: one or more characters other than a dot, a
  dot, one or more characters other than a dot, and nothing else.
\<close>

definition match_type_id :: "string \<Rightarrow> bool" where
  "match_type_id s =
     (let pre = takeWhile (\<lambda>c. c \<noteq> CHR ''.'') s;
          rest = dropWhile (\<lambda>c. c \<noteq> CHR ''.'') s
      in pre \<noteq> [] \<and>
         (case rest of
            [] \<Rightarrow> False
          | _ # post \<Rightarrow> post \<noteq> [] \<and> CHR ''.'' \<notin> set post))"

text \<open>
  \<open>registerModelType\<close>. The message of the first \<open>throw\<close> is a template that reads
  \<open>modeType.id\<close>, an unbound identifier, so what is thrown for a registered id is a
  ReferenceError; the registry is only written on the last line. The first test is
  \<open>if (this.modelTypes[modelType.id])\<close>, so an id that names an inherited member takes
  the same branch as a registered id.
\<close>

definition registerModelType :: "client \<Rightarrow> modelType \<Rightarrow> error option \<times> client" where
  "registerModelType st mt =
     (if get_property (modelTypes st) (mt_id mt) \<noteq> Missing
      then (Some (ReferenceError ''modeType''), st)
      else if mt_id mt = [] \<or> \<not> match_type_id (mt_id mt)
      then (Some (Error (''Invalid model type id: '' @ mt_id mt)), st)
      else (None, st\<lparr>modelTypes := (modelTypes st)(mt_id mt \<mapsto> mt)\<rparr>))"

section \<open>Sending requests\<close>

text \<open>
  \<open>_sendNow\<close>: the request takes the current \<open>reqId\<close>, which is then incremented; the
  pending record is stored under that id; the request is written to the socket. Without a
  socket \<open>this.ws.send\<close> throws inside the promise executor, which rejects the promise.
  \<open>params || undefined\<close> turns a falsy argument into \<open>undefined\<close>.

  \<open>reqId\<close> is a JavaScript number, a double: counting up from 1 it takes every integer
  up to \<open>2^53\<close>, and there \<open>reqId++\<close> leaves it as it is, the sum \<open>2^53 + 1\<close> being
  rounded back to \<open>2^53\<close>.
\<close>

definition number_incr :: "nat \<Rightarrow> nat" where
  "number_incr n = (if n < 2 ^ 53 then n + 1 else n)"

definition or_undefined :: "jsval \<Rightarrow> jsval" where
  "or_undefined v = (if js_truthy v then v else JUndefined)"

definition sendNow :: "client \<Rightarrow> string \<Rightarrow> jsval \<Rightarrow> continuation \<Rightarrow> nat \<times> client" where
  "sendNow st method params k =
     (let req = \<lparr> req_id = reqId st, req_method = method, req_params = or_undefined params \<rparr>;
          st1 = st\<lparr>reqId := number_incr (reqId st)\<rparr>;
          st2 = st1\<lparr>requests := (requests st1)(req_id req \<mapsto>
                   \<lparr> p_method = method, p_params = req_params req, p_k = k \<rparr>)\<rparr>
      in (req_id req,
          if ws st2 then st2\<lparr>sent := sent st2 @ [req]\<rparr>
          else st2\<lparr>rejected := rejected st2 @ [(req_id req, TypeError ''null.send'')]\<rparr>))"

text \<open>
  \<open>connect()\<close>: sets \<open>tryConnect\<close> and reuses the pending promise or opens a socket.
\<close>

definition connect :: "client \<Rightarrow> client" where
  "connect st =
     (let st1 = st\<lparr>tryConnect := True\<rparr>
      in if connectPromise st1 then st1 else st1\<lparr>connectPromise := True, ws := True\<rparr>)"

text \<open>
  \<open>_send\<close>: sends now when connected, otherwise chains the send on \<open>connect()\<close>.
\<close>

definition send :: "client \<Rightarrow> string \<Rightarrow> jsval \<Rightarrow> continuation \<Rightarrow> client" where
  "send st method params k =
     (if connected st then snd (sendNow st method params k)
      else (let st1 = connect st in st1\<lparr>awaiting := awaiting st1 @ [(method, params, k)]\<rparr>))"

text \<open>A run of sends, one after the other, with the ids they were given.\<close>

fun sendNow_all :: "client \<Rightarrow> (string \<times> jsval \<times> continuation) list \<Rightarrow> nat list \<times> client" where
  "sendNow_all st [] = ([], st)"
| "sendNow_all st ((m, p, k) # rs) =
     (case sendNow st m p k of
        (i, st1) \<Rightarrow> (case sendNow_all st1 rs of (is, st2) \<Rightarrow> (i # is, st2)))"

section \<open>setModel\<close>

definition actionDelete :: jsval where
  "actionDelete = JObj [(''action'', JStr ''delete'')]"

definition obj_get :: "(string \<times> jsval) list \<Rightarrow> string \<Rightarrow> jsval" where
  "obj_get ob k = (case map_of ob k of None \<Rightarrow> JUndefined | Some v \<Rightarrow> v)"

fun obj_set :: "(string \<times> jsval) list \<Rightarrow> string \<Rightarrow> jsval \<Rightarrow> (string \<times> jsval) list" where
  "obj_set [] k v = [(k, v)]"
| "obj_set ((k', v') # ps) k v =
     (if k' = k then (k, v) # ps else (k', v') # obj_set ps k v)"

text \<open>
  \<open>Object.assign({}, props)\<close>: a new object receives the own properties of \<open>props\<close> in
  order (none when \<open>props\<close> is \<open>null\<close> or \<open>undefined\<close>, here a reference with no object).
\<close>

definition object_assign_new :: "client \<Rightarrow> nat \<Rightarrow> nat \<times> client" where
  "object_assign_new st src =
     (let r = next_obj st;
          content = foldl (\<lambda>ob (k, v). obj_set ob k v) []
                      (case objs st src of None \<Rightarrow> [] | Some ob \<Rightarrow> ob)
      in (r, st\<lparr>objs := (objs st)(r \<mapsto> content), next_obj := r + 1\<rparr>))"

text \<open>Reading and writing a property of the object at a reference.\<close>

definition prop_read :: "client \<Rightarrow> nat \<Rightarrow> string \<Rightarrow> jsval" where
  "prop_read st r k = (case objs st r of None \<Rightarrow> JUndefined | Some ob \<Rightarrow> obj_get ob k)"

definition prop_write :: "client \<Rightarrow> nat \<Rightarrow> string \<Rightarrow> jsval \<Rightarrow> client" where
  "prop_write st r k v =
     (case objs st r of
        None \<Rightarrow> st
      | Some ob \<Rightarrow> st\<lparr>objs := (objs st)(r \<mapsto> obj_set ob k v)\<rparr>)"

definition object_keys :: "client \<Rightarrow> nat \<Rightarrow> string list" where
  "object_keys st r = (case objs st r of None \<Rightarrow> [] | Some ob \<Rightarrow> map fst ob)"

text \<open>
  \<open>setModel(modelId, props)\<close>: the local \<open>props\<close> is rebound to the copy, the loop over
  its keys replaces each \<open>undefined\<close> by \<open>actionDelete\<close> in the copy, and the copy is the
  parameter of the call. The request holds the copy as it is when \<open>_send\<close> is called; no
  other reference to the copy exists.
\<close>

definition setModel_loop :: "client \<Rightarrow> nat \<Rightarrow> string list \<Rightarrow> client" where
  "setModel_loop st r ks =
     foldl (\<lambda>s k. if prop_read s r k = JUndefined then prop_write s r k actionDelete else s) st ks"

definition setModel :: "client \<Rightarrow> rid \<Rightarrow> nat \<Rightarrow> client" where
  "setModel st modelId props =
     (case object_assign_new st props of
        (r, st1) \<Rightarrow>
          (let st2 = setModel_loop st1 r (object_keys st1 r)
           in send st2 (''call.'' @ modelId @ ''.set'')
                (JObj (case objs st2 r of None \<Rightarrow> [] | Some ob \<Rightarrow> ob)) K_caller))"

section \<open>The resource cache\<close>

text \<open>
  Modelled from the spec: the methods of \<open>CacheItem\<close> that the client calls.
  \<open>setSubscribed\<close> and \<open>setPromise\<close> store their argument; \<open>removeIndirect\<close>
  decrements \<open>indirect\<close> (``decrement the removed child's \<open>indirect\<close>'').
\<close>

definition setSubscribed :: "client \<Rightarrow> addr \<Rightarrow> bool \<Rightarrow> client" where
  "setSubscribed st a b = st\<lparr>heap := (heap st)(a := (heap st a)\<lparr>subscribed := b\<rparr>)\<rparr>"


definition removeIndirect :: "client \<Rightarrow> addr \<Rightarrow> client" where
  "removeIndirect st a =
     st\<lparr>heap := (heap st)(a := (heap st a)\<lparr>indirect := indirect (heap st a) - 1\<rparr>)\<rparr>"

text \<open>
  \<open>_setStale\<close>: nothing when the client is not connected, otherwise a timer that will call
  \<open>_subscribeToStale(rid)\<close> after \<open>subscribeStaleDelay\<close>.
\<close>

definition subscribeStaleDelay :: nat where
  "subscribeStaleDelay = 2000"

definition setStale :: "client \<Rightarrow> rid \<Rightarrow> client" where
  "setStale st r = (if \<not> connected st then st else st\<lparr>timers := timers st @ [r]\<rparr>)"

text \<open>
  \<open>for (let model of item)\<close> with \<open>model.getResourceId()\<close>: the resource ids of the models
  of a collection; anything else is not iterable.
\<close>

definition item_models :: "resource option \<Rightarrow> error + rid list" where
  "item_models it =
     (case it of
        Some (CollectionItem rs) \<Rightarrow> Inr rs
      | _ \<Rightarrow> Inl (TypeError ''item is not iterable''))"

text \<open>
  The loop of \<open>_tryDelete\<close> over the models of a collection, given the function for the
  recursive call: a model that is not in the cache throws (a string); otherwise its
  \<open>indirect\<close> is decremented and the recursive call is made, its result ignored. For a
  resource id that is not in the cache and names an inherited member, \<open>cacheModel\<close> is
  that member and the call \<open>cacheModel.removeIndirect()\<close> throws a TypeError.
\<close>

fun delete_models ::
  "(client \<Rightarrow> addr \<Rightarrow> ((error + bool) \<times> client) option) \<Rightarrow> client \<Rightarrow> rid list
    \<Rightarrow> (error option \<times> client) option" where
  "delete_models rc st [] = Some (None, st)"
| "delete_models rc st (r # rs) =
     (case get_property (cache st) r of
        Missing \<Rightarrow> Some (Some (ThrownString ''Collection model not found in cache''), st)
      | Inherited \<Rightarrow> Some (Some (TypeError ''cacheModel.removeIndirect is not a function''), st)
      | Own c \<Rightarrow>
          (case rc (removeIndirect st c) c of
             None \<Rightarrow> None
           | Some (Inl e, st1) \<Rightarrow> Some (Some e, st1)
           | Some (Inr _, st1) \<Rightarrow> delete_models rc st1 rs))"

text \<open>
  \<open>_tryDelete(cacheItem)\<close>, the cache item given by its address. The first argument bounds
  the depth of the recursion; \<open>None\<close> means the bound was reached. The result is the
  returned boolean or the exception, with the client as the call left it.
\<close>

primrec tryDelete :: "nat \<Rightarrow> client \<Rightarrow> addr \<Rightarrow> ((error + bool) \<times> client) option" where
  "tryDelete 0 st a = None"
| "tryDelete (Suc n) st a =
     (let ci = heap st a in
      if indirect ci \<noteq> 0 then Some (Inr False, st)
      else if direct ci \<noteq> 0
      then Some (Inr False, if \<not> subscribed ci then setStale st (ci_rid ci) else st)
      else if subscribed ci then Some (Inr False, st)
      else if ci_isCollection ci
      then (case item_models (ci_item ci) of
              Inl e \<Rightarrow> Some (Inl e, st)
            | Inr rs \<Rightarrow>
                (case delete_models (tryDelete n) st rs of
                   None \<Rightarrow> None
                 | Some (Some e, st1) \<Rightarrow> Some (Inl e, st1)
                 | Some (None, st1) \<Rightarrow>
                     Some (Inr True, st1\<lparr>cache := (cache st1)(ci_rid ci := None)\<rparr>)))
      else Some (Inr True, st\<lparr>cache := (cache st)(ci_rid ci := None)\<rparr>))"






text \<open>\<open>_handleFailedSubscribe(cacheItem, err)\<close>.\<close>

definition handleFailedSubscribe :: "nat \<Rightarrow> client \<Rightarrow> addr \<Rightarrow> error \<Rightarrow> ((error + bool) \<times> client) option" where
  "handleFailedSubscribe n st a err = tryDelete n (setSubscribed st a False) a"





section \<open>The collection diff\<close>

text \<open>
  An array read \<open>a[i]\<close>: \<open>undefined\<close> (here \<open>None\<close>) outside the array, so that
  \<open>a[-1] === b[-1]\<close> holds.
\<close>

definition js_nth :: "'a list \<Rightarrow> int \<Rightarrow> 'a option" where
  "js_nth xs i = (if 0 \<le> i \<and> i < int (length xs) then Some (xs ! nat i) else None)"

text \<open>
  \<open>Array.prototype.slice(start, end)\<close>: a negative bound counts from the end, both bounds
  are clamped to the array, an empty range gives the empty array.
\<close>

definition js_slice :: "'a list \<Rightarrow> int \<Rightarrow> int \<Rightarrow> 'a list" where
  "js_slice xs start end =
     (let len = int (length xs);
          k = (if start < 0 then max (len + start) 0 else min start len);
          f = (if end < 0 then max (len + end) 0 else min end len)
      in take (nat (f - k)) (drop (nat k) xs))"

text \<open>
  The calls that \<open>_patchDiff\<close> makes on its three callbacks, with their arguments:
  \<open>onKeep(id, m, n, idx)\<close>, \<open>onAdd(id, n, idx)\<close>, \<open>onRemove(id, m, idx)\<close>.
\<close>

datatype diff_call =
    Keep "rid option" int int int
  | Add "rid option" int int
  | Remove "rid option" int int

text \<open>The first loop: \<open>while (s < m && s < n && a[s] === b[s]) s++\<close>.\<close>

function trim_start :: "rid list \<Rightarrow> rid list \<Rightarrow> int \<Rightarrow> int" where
  "trim_start a b s =
     (if s < int (length a) \<and> s < int (length b) \<and> js_nth a s = js_nth b s
      then trim_start a b (s + 1) else s)"
  by pat_completeness auto
termination
  by (relation "measure (\<lambda>(a, b, s). nat (int (length a) - s))") auto

text \<open>
  The second loop: \<open>while (s <= m && s <= n && a[m - 1] === b[n - 1]) { m--; n--; }\<close>.
\<close>

function trim_end :: "rid list \<Rightarrow> rid list \<Rightarrow> int \<Rightarrow> int \<Rightarrow> int \<Rightarrow> int \<times> int" where
  "trim_end a b s m n =
     (if s \<le> m \<and> s \<le> n \<and> js_nth a (m - 1) = js_nth b (n - 1)
      then trim_end a b s (m - 1) (n - 1) else (m, n))"
  by pat_completeness auto
termination
  by (relation "measure (\<lambda>(a, b, s, m, n). nat (m - s + 1))") auto

text \<open>
  The matrix \<open>c\<close> of \<open>m + 1\<close> rows and \<open>n + 1\<close> columns. The code sets column 0 and row 0
  to 0 and leaves the other slots empty until the double loop writes them, each before it is
  read; here the empty slots hold 0.
\<close>

definition matrix_init :: "nat \<Rightarrow> nat \<Rightarrow> int list list" where
  "matrix_init m n = replicate (m + 1) (replicate (n + 1) 0)"

definition cell :: "int list list \<Rightarrow> int \<Rightarrow> int \<Rightarrow> int" where
  "cell c i j = c ! nat i ! nat j"

text \<open>
  The body of the double loop:
  \<open>c[i + 1][j + 1] = aa[i] === bb[j] ? c[i][j] + 1 : Math.max(c[i + 1][j], c[i][j + 1])\<close>.
\<close>

definition matrix_step :: "rid list \<Rightarrow> rid list \<Rightarrow> int list list \<Rightarrow> nat \<Rightarrow> nat \<Rightarrow> int list list" where
  "matrix_step aa bb c i j =
     c[i + 1 := (c ! (i + 1))[j + 1 :=
        (if js_nth aa (int i) = js_nth bb (int j)
         then c ! i ! j + 1
         else max (c ! (i + 1) ! j) (c ! i ! (j + 1)))]]"

definition matrix_fill :: "rid list \<Rightarrow> rid list \<Rightarrow> nat \<Rightarrow> nat \<Rightarrow> int list list" where
  "matrix_fill aa bb m n =
     foldl (\<lambda>c i. foldl (\<lambda>c j. matrix_step aa bb c i j) c [0..<n]) (matrix_init m n) [0..<m]"

text \<open>
  \<open>for (i = a.length - 1; i >= s + m; i--) onKeep(a[i], i, i - m + n, i)\<close>, the calls
  appended to those made so far.
\<close>

function keep_suffix :: "rid list \<Rightarrow> int \<Rightarrow> int \<Rightarrow> int \<Rightarrow> int \<Rightarrow> diff_call list \<Rightarrow> diff_call list" where
  "keep_suffix a s m n i calls =
     (if i \<ge> s + m
      then keep_suffix a s m n (i - 1) (calls @ [Keep (js_nth a i) i (i - m + n) i])
      else calls)"
  by pat_completeness auto
termination
  by (relation "measure (\<lambda>(a, s, m, n, i, calls). nat (i - (s + m) + 1))") auto

text \<open>
  The \<open>while (true)\<close> loop that walks the matrix back from \<open>(m, n)\<close>. The state is
  \<open>i\<close>, \<open>j\<close>, \<open>idx\<close>, the number \<open>r\<close> of removes and the list \<open>adds\<close> of pending adds,
  each \<open>[n, idx, r]\<close>; the result is the final \<open>r\<close>, \<open>adds\<close> and the calls.
\<close>

function diff_loop ::
  "rid list \<Rightarrow> rid list \<Rightarrow> int list list \<Rightarrow> int \<Rightarrow> int \<Rightarrow> int \<Rightarrow> int \<Rightarrow> int
    \<Rightarrow> (int \<times> int \<times> int) list \<Rightarrow> diff_call list
    \<Rightarrow> int \<times> (int \<times> int \<times> int) list \<times> diff_call list" where
  "diff_loop aa bb c s i j idx r adds calls =
     (let m = i - 1; n = j - 1 in
      if i > 0 \<and> j > 0 \<and> js_nth aa m = js_nth bb n
      then diff_loop aa bb c s (i - 1) (j - 1) (idx - 1) r adds
             (calls @ [Keep (js_nth aa m) (m + s) (n + s) (idx - 1)])
      else if j > 0 \<and> (i = 0 \<or> cell c i n \<ge> cell c m j)
      then diff_loop aa bb c s i (j - 1) idx r (adds @ [(n, idx, r)]) calls
      else if i > 0 \<and> (j = 0 \<or> cell c i n < cell c m j)
      then diff_loop aa bb c s (i - 1) j (idx - 1) (r + 1) adds
             (calls @ [Remove (js_nth aa m) (m + s) (idx - 1)])
      else (r, adds, calls))"
  by pat_completeness auto
termination
  by (relation "measure (\<lambda>(aa, bb, c, s, i, j, idx, r, adds, calls). nat i + nat j)") auto

text \<open>\<open>for (i = s - 1; i >= 0; i--) onKeep(a[i], i, i, i)\<close>.\<close>

function keep_prefix :: "rid list \<Rightarrow> int \<Rightarrow> diff_call list \<Rightarrow> diff_call list" where
  "keep_prefix a i calls =
     (if i \<ge> 0 then keep_prefix a (i - 1) (calls @ [Keep (js_nth a i) i i i]) else calls)"
  by pat_completeness auto
termination
  by (relation "measure (\<lambda>(a, i, calls). nat (i + 1))") auto

text \<open>
  The last loop, over \<open>adds\<close> from its last element to its first:
  \<open>[n, idx, j] = adds[i]; onAdd(bb[n], n + s, idx - r + j + len - i)\<close>.
\<close>

function do_adds ::
  "rid list \<Rightarrow> int \<Rightarrow> int \<Rightarrow> (int \<times> int \<times> int) list \<Rightarrow> int \<Rightarrow> int \<Rightarrow> diff_call list
    \<Rightarrow> diff_call list" where
  "do_adds bb s r adds len i calls =
     (if i \<ge> 0
      then (case adds ! nat i of
              (n, idx, j) \<Rightarrow>
                do_adds bb s r adds len (i - 1)
                  (calls @ [Add (js_nth bb n) (n + s) (idx - r + j + len - i)]))
      else calls)"
  by pat_completeness auto
termination
  by (relation "measure (\<lambda>(bb, s, r, adds, len, i, calls). nat (i + 1))") auto

text \<open>
  The values that \<open>_patchDiff\<close> has after its two trimming loops and the two slices:
  \<open>s\<close>, \<open>aa\<close>, \<open>m\<close>, \<open>bb\<close> and \<open>n\<close>.
\<close>

definition trimmed :: "rid list \<Rightarrow> rid list \<Rightarrow> int \<times> rid list \<times> int \<times> rid list \<times> int" where
  "trimmed a b =
     (let s = trim_start a b 0;
          (m0, n0) = trim_end a b s (int (length a)) (int (length b));
          aa = (if s > 0 \<or> m0 < int (length a) then js_slice a s m0 else a);
          m = (if s > 0 \<or> m0 < int (length a) then int (length aa) else m0);
          bb = (if s > 0 \<or> n0 < int (length b) then js_slice b s n0 else b);
          n = (if s > 0 \<or> n0 < int (length b) then int (length bb) else n0)
      in (s, aa, m, bb, n))"

text \<open>\<open>_patchDiff(a, b, onKeep, onAdd, onRemove)\<close>: the calls made, in order.\<close>

definition patchDiff :: "rid list \<Rightarrow> rid list \<Rightarrow> diff_call list" where
  "patchDiff a b =
     (case trimmed a b of
        (s, aa, m, bb, n) \<Rightarrow>
          (let c = matrix_fill aa bb (nat m) (nat n);
               calls1 = keep_suffix a s m n (int (length a) - 1) [];
               (r, adds, calls2) = diff_loop aa bb c s m n (m + s) 0 [] calls1;
               calls3 = keep_prefix a (s - 1) calls2;
               len = int (length adds) - 1
           in do_adds bb s r adds len len calls3))"

text \<open>
  The callbacks that \<open>_syncResource\<close> passes to \<open>_patchDiff\<close>, as the event data they hand
  to \<open>_handleAddEvent\<close> and \<open>_handleRemoveEvent\<close>. \<open>onKeep\<close> raises no collection event.
  \<open>onAdd\<close> passes \<open>{rid: id, data: ..., idx: idx}\<close>; \<open>onRemove\<close> passes \<open>{rid: id}\<close>
  only, so the \<open>data.idx\<close> that \<open>_handleRemoveEvent\<close> reads is \<open>undefined\<close>.

  This is the data of each callback taken by itself, in the order of the calls of
  \<open>_patchDiff\<close>; it is not a run of the handlers. With an undefined \<open>idx\<close> the handler
  calls \<open>__remove(undefined)\<close> (\<open>ResCollection_remove\<close> with \<open>None\<close>), which takes the
  first element out of the list and returns \<open>undefined\<close>, emits the event with
  \<open>{item: undefined, idx: undefined}\<close> and then fails on \<open>item.getResourceId()\<close> with a
  TypeError that leaves \<open>_patchDiff\<close>, so that the callbacks after the first \<open>onRemove\<close>
  are not reached.
\<close>

datatype sync_event =
    AddEvent "rid option" "int option"
  | RemoveEvent "rid option" "int option"

fun sync_callback :: "diff_call \<Rightarrow> sync_event list" where
  "sync_callback (Keep x m n idx) = []"
| "sync_callback (Add x n idx) = [AddEvent x (Some idx)]"
| "sync_callback (Remove x m idx) = [RemoveEvent x None]"

definition syncResource_events :: "rid list \<Rightarrow> rid list \<Rightarrow> sync_event list" where
  "syncResource_events a b = concat (map sync_callback (patchDiff a b))"

text \<open>
  The effect of an emitted operation on a list of resource ids, taken at its emitted index:
  a remove deletes the element at \<open>idx\<close>, an add inserts the id at \<open>idx\<close>. Keeps change
  nothing.
\<close>

fun apply_call :: "rid list \<Rightarrow> diff_call \<Rightarrow> rid list" where
  "apply_call xs (Keep x m n idx) = xs"
| "apply_call xs (Remove x m idx) = take (nat idx) xs @ drop (nat idx + 1) xs"
| "apply_call xs (Add x n idx) =
     (case x of None \<Rightarrow> xs | Some y \<Rightarrow> take (nat idx) xs @ y # drop (nat idx) xs)"

definition apply_calls :: "rid list \<Rightarrow> diff_call list \<Rightarrow> rid list" where
  "apply_calls xs cs = foldl apply_call xs cs"

section \<open>Auxiliary definitions and example inputs\<close>


text \<open>An id callback for the examples: the \<open>id\<close> property of a model object.\<close>

definition example_idCallback :: "jsval \<Rightarrow> string" where
  "example_idCallback v =
     (case v of
        JObj ps \<Rightarrow> (case map_of ps ''id'' of Some (JStr s) \<Rightarrow> s | _ \<Rightarrow> ''undefined'')
      | _ \<Rightarrow> ''undefined'')"

text \<open>
  A connected client and, at reference 0, the object \<open>{a: undefined, b: 2}\<close>.
\<close>

definition example_client :: client where
  "example_client =
     ResClient_new\<lparr>connected := True, ws := True,
       objs := [0 \<mapsto> [(''a'', JUndefined), (''b'', JNum 2)]], next_obj := 1\<rparr>"

text \<open>
  A connected client whose cache holds the unsubscribed collection \<open>rooms\<close> and its two
  models, \<open>room.2\<close> with one direct listener.
\<close>

definition example_cache :: client where
  "example_cache =
     ResClient_new\<lparr>connected := True, ws := True, next_addr := 3,
       heap := (\<lambda>_. CacheItem_new [])
         (0 := \<lparr> ci_rid = ''rooms'', ci_item = Some (CollectionItem [''room.1'', ''room.2'']),
                 ci_isCollection = True, direct = 0, indirect = 0, subscribed = False,
                 ci_promise = None \<rparr>,
          1 := \<lparr> ci_rid = ''room.1'', ci_item = Some ModelItem, ci_isCollection = False,
                 direct = 0, indirect = 1, subscribed = False, ci_promise = None \<rparr>,
          2 := \<lparr> ci_rid = ''room.2'', ci_item = Some ModelItem, ci_isCollection = False,
                 direct = 1, indirect = 1, subscribed = False, ci_promise = None \<rparr>),
       cache := [''rooms'' \<mapsto> 0, ''room.1'' \<mapsto> 1, ''room.2'' \<mapsto> 2]\<rparr>"



text \<open>
  Notions used to state the properties of \<open>_tryDelete\<close>. What a call may do to the
  entries and the cache: \<open>s'\<close> comes from \<open>s\<close> by lowering \<open>indirect\<close> counters and
  deleting cache keys, the other fields of every entry being as before. And the cached
  entries that still have an indirect reference.
\<close>

definition releases :: "client \<Rightarrow> client \<Rightarrow> bool" where
  "releases s s' \<longleftrightarrow>
     (\<forall>x. ci_rid (heap s' x) = ci_rid (heap s x) \<and> ci_item (heap s' x) = ci_item (heap s x) \<and>
          ci_isCollection (heap s' x) = ci_isCollection (heap s x) \<and>
          direct (heap s' x) = direct (heap s x) \<and>
          subscribed (heap s' x) = subscribed (heap s x) \<and>
          ci_promise (heap s' x) = ci_promise (heap s x) \<and>
          indirect (heap s' x) \<le> indirect (heap s x)) \<and>
     (\<forall>k. cache s' k = None \<or> cache s' k = cache s k)"

definition referred :: "client \<Rightarrow> addr set" where
  "referred s = {c \<in> ran (cache s). 0 < indirect (heap s c)}"

text \<open>
  Notions used to state the properties of the diff: the kind of a call, the insertion of
  \<open>bb[n]\<close> at position \<open>n\<close>, and what the backtracking loop has achieved when it
  returns: it appended \<open>K\<close> (no adds) to the calls and \<open>new\<close> to the pending adds; the
  calls \<open>K\<close> reduce the first \<open>i\<close> elements of \<open>aa\<close> to the list \<open>kept\<close>; each
  pending add will be emitted at index \<open>n + s\<close>; and the pending adds, in the order of
  emission, turn \<open>kept\<close> into the first \<open>j\<close> elements of \<open>bb\<close>.
\<close>

definition is_add :: "diff_call \<Rightarrow> bool" where
  "is_add x = (case x of Add _ _ _ \<Rightarrow> True | _ \<Rightarrow> False)"

definition is_keep :: "diff_call \<Rightarrow> bool" where
  "is_keep x = (case x of Keep _ _ _ _ \<Rightarrow> True | _ \<Rightarrow> False)"

definition ins :: "rid list \<Rightarrow> rid list \<Rightarrow> int \<Rightarrow> rid list" where
  "ins bb L n = take (nat n) L @ bb ! nat n # drop (nat n) L"

definition loop_post ::
  "rid list \<Rightarrow> rid list \<Rightarrow> int \<Rightarrow> int \<Rightarrow> int \<Rightarrow> int \<Rightarrow> (int \<times> int \<times> int) list \<Rightarrow> diff_call list
    \<Rightarrow> int \<Rightarrow> (int \<times> int \<times> int) list \<Rightarrow> diff_call list \<Rightarrow> bool" where
  "loop_post aa bb s i j r adds calls r' adds' calls' \<longleftrightarrow>
     (\<exists>K new kept.
        calls' = calls @ K \<and> adds' = adds @ new \<and>
        r' = r + (i - int (length kept)) \<and>
        int (length new) = j - int (length kept) \<and>
        (\<forall>x\<in>set K. \<not> is_add x) \<and>
        (\<forall>P T. int (length P) = s \<longrightarrow>
            apply_calls (P @ take (nat i) aa @ T) K = P @ kept @ T) \<and>
        (\<forall>e<length new. case new ! e of (n, idx, re) \<Rightarrow>
            0 \<le> n \<and> n < j \<and> idx - r' + re + (int (length new) - 1 - int e) = n + s) \<and>
        (\<forall>Z. foldl (ins bb) (kept @ Z) (rev (map fst new)) = take (nat j) bb @ Z))"

section \<open>Properties of dictionary reads\<close>

lemma get_property_Some: "m k = Some v \<Longrightarrow> get_property m k = Own v"
  by (simp add: get_property_def)

lemma get_property_Own: "get_property m k = Own v \<longleftrightarrow> m k = Some v"
  by (simp add: get_property_def split: option.splits)

lemma get_property_None:
  "m k = None \<Longrightarrow>
   get_property m k = (if k \<in> set object_prototype_members then Inherited else Missing)"
  by (simp add: get_property_def)

lemma get_property_Missing:
  "get_property m k = Missing \<longleftrightarrow> m k = None \<and> k \<notin> set object_prototype_members"
  by (simp add: get_property_def split: option.splits)

section \<open>Properties of ResCollection\<close>

text \<open>
  \<open>__init\<close> with an id callback fails when two items of the data array map to the same
  id (the items being objects, or any other truthy values).
\<close>

lemma init_loop_duplicate:
  assumes "\<forall>v\<in>set vs. js_truthy v"
    and "\<forall>k v. m k = Some v \<longrightarrow> js_truthy v"
    and "\<not> distinct (map cb vs) \<or> (\<exists>v\<in>set vs. cb v \<in> dom m)"
  shows "fst (init_loop cb m vs) \<noteq> None"
  using assms
proof (induction vs arbitrary: m)
  case Nil
  then show ?case by simp
next
  case (Cons v vs)
  show ?case
  proof (cases "map_has m (cb v)")
    case True
    then show ?thesis by simp
  next
    case False
    then have nv: "cb v \<notin> dom m" using Cons.prems(2)
      by (auto simp: map_has_def get_property_def split: option.splits)
    let ?m = "m(cb v \<mapsto> v)"
    have t: "\<forall>k w. ?m k = Some w \<longrightarrow> js_truthy w" using Cons.prems(1,2) by auto
    have d: "\<not> distinct (map cb vs) \<or> (\<exists>w\<in>set vs. cb w \<in> dom ?m)"
      using Cons.prems(3) nv by auto
    have "\<forall>v\<in>set vs. js_truthy v" using Cons.prems(1) by simp
    from Cons.IH[OF this t d] have "fst (init_loop cb ?m vs) \<noteq> None" .
    moreover have "init_loop cb m (v # vs) = init_loop cb ?m vs" using False by simp
    ultimately show ?thesis by simp
  qed
qed

lemma init_duplicate_fails:
  assumes "c_idCallback c = Some cb" and "\<forall>v\<in>set data. js_truthy v"
    and "\<not> distinct (map cb data)"
  shows "fst (ResCollection_init c (Some data)) \<noteq> None"
  using assms init_loop_duplicate[of data Map.empty cb]
  by (auto simp: ResCollection_init_def Let_def split: prod.splits)

text \<open>
  An id that names an inherited member is reported as a duplicate although the map is empty.
\<close>

lemma init_inherited_id:
  "ResCollection_init (ResCollection_new (Some example_idCallback))
       (Some [JObj [(''id'', JStr ''constructor'')]]) =
     (Some (Error ''Duplicate id - constructor''),
      \<lparr> c_idCallback = Some example_idCallback, c_map = Some Map.empty,
        c_list = Some [JObj [(''id'', JStr ''constructor'')]] \<rparr>)"
  by (simp add: ResCollection_init_def ResCollection_new_def map_has_def get_property_def
      object_prototype_members_def example_idCallback_def)

text \<open>
  \<open>__remove\<close> with an undefined index, as \<open>_handleRemoveEvent\<close> calls it for the data
  \<open>{rid: id}\<close>: the first element leaves the list and the result is \<open>undefined\<close>.
\<close>

lemma remove_without_idx:
  "ResCollection_remove \<lparr> c_idCallback = None, c_map = None, c_list = Some (x # xs) \<rparr> None =
     (Inr JUndefined, \<lparr> c_idCallback = None, c_map = None, c_list = Some xs \<rparr>)"
  by (simp add: ResCollection_remove_def splice_remove_def)

text \<open>
  Claim C7. With an id callback, \<open>__add\<close> on an empty, initialised collection and an item
  with the fresh id \<open>x\<close> does not succeed: the item is spliced into the list, then the read
  of the unbound \<open>v\<close> throws a ReferenceError and the id-lookup map stays empty.
\<close>

theorem add_with_idCallback_throws:
  "ResCollection_init (ResCollection_new (Some example_idCallback)) (Some []) =
     (None, \<lparr> c_idCallback = Some example_idCallback, c_map = Some Map.empty, c_list = Some [] \<rparr>)
   \<and> ResCollection_add
       \<lparr> c_idCallback = Some example_idCallback, c_map = Some Map.empty, c_list = Some [] \<rparr>
       (JObj [(''id'', JStr ''x'')]) 0 =
     (Some (ReferenceError ''v''),
      \<lparr> c_idCallback = Some example_idCallback, c_map = Some Map.empty,
        c_list = Some [JObj [(''id'', JStr ''x'')]] \<rparr>)"
  by (simp add: ResCollection_init_def ResCollection_new_def ResCollection_add_def
      splice_insert_def splice_start_def)

text \<open>
  Claim C8. On the collection initialised with the list \<open>[a, b]\<close>, \<open>indexOf(b)\<close> throws a
  ReferenceError, where the documented result is the index 1.
\<close>

theorem indexOf_throws:
  "ResCollection_indexOf
     (snd (ResCollection_init (ResCollection_new None) (Some [JStr ''a'', JStr ''b''])))
     (JStr ''b'') = Inl (ReferenceError ''id'')
   \<and> first_index [JStr ''a'', JStr ''b''] (JStr ''b'') = 1"
  by (simp add: ResCollection_indexOf_def ResCollection_init_def ResCollection_new_def)

section \<open>Properties of the model type registry\<close>

text \<open>The matcher accepts exactly the strings of the form \<open>segment.segment\<close>.\<close>

lemma match_type_id_iff:
  "match_type_id s \<longleftrightarrow>
     (\<exists>p q. s = p @ CHR ''.'' # q \<and> p \<noteq> [] \<and> q \<noteq> [] \<and>
            CHR ''.'' \<notin> set p \<and> CHR ''.'' \<notin> set q)"
proof
  assume m: "match_type_id s"
  let ?p = "takeWhile (\<lambda>c. c \<noteq> CHR ''.'') s"
  let ?r = "dropWhile (\<lambda>c. c \<noteq> CHR ''.'') s"
  from m obtain d q where r: "?r = d # q" and q: "q \<noteq> []" "CHR ''.'' \<notin> set q"
    and p: "?p \<noteq> []"
    by (auto simp: match_type_id_def Let_def split: list.splits)
  have "d = CHR ''.''"
    using r hd_dropWhile[of "\<lambda>c. c \<noteq> CHR ''.''" s] by (metis list.sel(1) list.distinct(1))
  moreover have "s = ?p @ ?r" by simp
  moreover have "CHR ''.'' \<notin> set ?p" by (auto dest: set_takeWhileD)
  ultimately show "\<exists>p q. s = p @ CHR ''.'' # q \<and> p \<noteq> [] \<and> q \<noteq> [] \<and>
      CHR ''.'' \<notin> set p \<and> CHR ''.'' \<notin> set q"
    using r p q by metis
next
  assume "\<exists>p q. s = p @ CHR ''.'' # q \<and> p \<noteq> [] \<and> q \<noteq> [] \<and>
      CHR ''.'' \<notin> set p \<and> CHR ''.'' \<notin> set q"
  then obtain p q where s: "s = p @ CHR ''.'' # q"
    and pq: "p \<noteq> []" "q \<noteq> []" "CHR ''.'' \<notin> set p" "CHR ''.'' \<notin> set q"
    by blast
  have np: "\<forall>x\<in>set p. x \<noteq> CHR ''.''" using pq by auto
  have "takeWhile (\<lambda>c. c \<noteq> CHR ''.'') s = p"
    using s np by simp
  moreover have "dropWhile (\<lambda>c. c \<noteq> CHR ''.'') s = CHR ''.'' # q"
    using s np by simp
  ultimately show "match_type_id s" using pq by (simp add: match_type_id_def)
qed

text \<open>
  Claim C6. \<open>registerModelType\<close> throws when the id does not match the pattern and when the
  id is already registered, and the client (its registry included) is as before the call.
\<close>

theorem registerModelType_rejects:
  assumes "\<not> match_type_id (mt_id mt) \<or> modelTypes st (mt_id mt) \<noteq> None"
  shows "\<exists>e. registerModelType st mt = (Some e, st)"
  using assms by (auto simp: registerModelType_def get_property_def split: option.splits)

text \<open>
  The scenario of the specification: the first registration of \<open>svc.x\<close> succeeds and the
  second one fails; so does the registration of the one-segment id \<open>svc\<close>.
\<close>

theorem registerModelType_rejects_witness:
  "registerModelType ResClient_new \<lparr> mt_id = ''svc.x'', mt_factory = 0 \<rparr> =
     (None, ResClient_new\<lparr>modelTypes := [''svc.x'' \<mapsto> \<lparr> mt_id = ''svc.x'', mt_factory = 0 \<rparr>]\<rparr>)
   \<and> (\<exists>e. registerModelType
            (ResClient_new\<lparr>modelTypes := [''svc.x'' \<mapsto> \<lparr> mt_id = ''svc.x'', mt_factory = 0 \<rparr>]\<rparr>)
            \<lparr> mt_id = ''svc.x'', mt_factory = 0 \<rparr> =
          (Some e, ResClient_new\<lparr>modelTypes := [''svc.x'' \<mapsto> \<lparr> mt_id = ''svc.x'', mt_factory = 0 \<rparr>]\<rparr>))
   \<and> (\<exists>e. registerModelType ResClient_new \<lparr> mt_id = ''svc'', mt_factory = 0 \<rparr> =
          (Some e, ResClient_new))"
proof -
  let ?mt = "\<lparr> mt_id = ''svc.x'', mt_factory = 0 \<rparr>"
  let ?st = "ResClient_new\<lparr>modelTypes := [''svc.x'' \<mapsto> ?mt]\<rparr>"
  have 1: "registerModelType ResClient_new ?mt = (None, ?st)"
    by (simp add: registerModelType_def ResClient_new_def match_type_id_def get_property_def
        object_prototype_members_def)
  have 2: "modelTypes ?st (mt_id ?mt) \<noteq> None" by simp
  have 3: "\<not> match_type_id (mt_id \<lparr> mt_id = ''svc'', mt_factory = 0 \<rparr>)"
    by (simp add: match_type_id_def)
  show ?thesis
    using 1 registerModelType_rejects [of ?mt ?st, OF disjI2, OF 2]
      registerModelType_rejects [of "\<lparr> mt_id = ''svc'', mt_factory = 0 \<rparr>" ResClient_new,
        OF disjI1, OF 3]
    by blast
qed

section \<open>Properties of request ids\<close>

lemma number_incr_below: "n < 2 ^ 53 \<Longrightarrow> number_incr n = n + 1"
  by (simp add: number_incr_def)

lemma number_incr_ge: "n \<le> number_incr n"
  by (simp add: number_incr_def)

lemma sendNow_reqId: "reqId (snd (sendNow st m p k)) = number_incr (reqId st)"
  by (simp add: sendNow_def Let_def)

lemma sendNow_id: "fst (sendNow st m p k) = reqId st"
  by (simp add: sendNow_def Let_def)

lemma sendNow_all_Cons:
  "fst (sendNow_all st ((m, p, k) # rs)) =
     reqId st # fst (sendNow_all (snd (sendNow st m p k)) rs)"
  using sendNow_id[of st m p k] by (auto split: prod.splits)

lemma sendNow_all_nth:
  "i < length rs \<Longrightarrow> reqId st + i \<le> 2 ^ 53 \<Longrightarrow> fst (sendNow_all st rs) ! i = reqId st + i"
proof (induction rs arbitrary: st i)
  case Nil
  then show ?case by simp
next
  case (Cons r rs)
  obtain m p k where r: "r = (m, p, k)" by (cases r)
  show ?case
  proof (cases i)
    case 0
    then show ?thesis unfolding r sendNow_all_Cons by simp
  next
    case (Suc i')
    then have l: "i' < length rs" using Cons.prems by simp
    have b: "reqId st < 2 ^ 53" using Cons.prems(2) Suc by simp
    have q: "reqId (snd (sendNow st m p k)) = reqId st + 1"
      unfolding sendNow_reqId by (rule number_incr_below[OF b])
    have "reqId (snd (sendNow st m p k)) + i' \<le> 2 ^ 53" using Cons.prems(2) Suc q by simp
    from Cons.IH[OF l this] show ?thesis
      unfolding r sendNow_all_Cons Suc using q by simp
  qed
qed

text \<open>
  \<open>_send\<close> never lowers \<open>reqId\<close>, and while every pending request has an id below
  \<open>reqId\<close> the id that \<open>_sendNow\<close> assigns is not the id of a pending request.
\<close>

lemma send_reqId: "reqId st \<le> reqId (send st m p k)"
  by (simp add: send_def sendNow_def connect_def Let_def number_incr_ge)

lemma sendNow_pending_below:
  assumes "\<forall>i\<in>dom (requests st). i < reqId st" and "reqId st < 2 ^ 53"
  shows "\<forall>i\<in>dom (requests (snd (sendNow st m p k))). i < reqId (snd (sendNow st m p k))"
proof
  fix i assume "i \<in> dom (requests (snd (sendNow st m p k)))"
  then have "i = reqId st \<or> i \<in> dom (requests st)"
    by (auto simp: sendNow_def Let_def split: if_splits)
  then have "i \<le> reqId st"
  proof
    assume "i = reqId st" then show ?thesis by simp
  next
    assume "i \<in> dom (requests st)"
    with assms have "i < reqId st" by blast
    then show ?thesis by simp
  qed
  then show "i < reqId (snd (sendNow st m p k))"
    unfolding sendNow_reqId number_incr_below[OF assms(2)] by simp
qed

lemma sendNow_fresh:
  assumes "\<forall>i\<in>dom (requests st). i < reqId st"
  shows "fst (sendNow st m p k) \<notin> dom (requests st)"
proof
  assume "fst (sendNow st m p k) \<in> dom (requests st)"
  then have "reqId st \<in> dom (requests st)" by (simp add: sendNow_def Let_def)
  with assms have "reqId st < reqId st" by blast
  then show False by simp
qed

text \<open>
  Claim C9 as stated fails. \<open>reqId\<close> is a JavaScript number. On a connected client whose
  counter has reached \<open>2^53 - 1\<close>, three sends are given the ids \<open>2^53 - 1\<close>, \<open>2^53\<close> and
  \<open>2^53\<close> again: the third send's id is not greater than the second's, and all three
  requests are written to the socket.
\<close>

theorem request_ids_repeat_counterexample:
  "fst (sendNow_all (example_client\<lparr>reqId := 9007199254740991\<rparr>)
        [(''subscribe.a'', JUndefined, K_caller), (''call.a.set'', JNull, K_caller),
         (''auth.a.b'', JUndefined, K_caller)])
     = [9007199254740991, 9007199254740992, 9007199254740992]
   \<and> map req_id (sent (snd (sendNow_all (example_client\<lparr>reqId := 9007199254740991\<rparr>)
        [(''subscribe.a'', JUndefined, K_caller), (''call.a.set'', JNull, K_caller),
         (''auth.a.b'', JUndefined, K_caller)])))
     = [9007199254740991, 9007199254740992, 9007199254740992]"
  by (simp add: sendNow_def Let_def number_incr_def example_client_def ResClient_new_def)

text \<open>
  Claim C9, amended. In any run of sends from any client state, a later send is given a
  greater request id than an earlier one, as long as the later send happens before the
  counter has passed \<open>2^53\<close>: with \<open>reqId\<close> the counter at the start of the run and
  \<open>j\<close> the position of the later send, \<open>reqId + j \<le> 2^53\<close>.
\<close>

theorem request_ids_increase:
  assumes "i < j" and "j < length rs" and "reqId st + j \<le> 2 ^ 53"
  shows "fst (sendNow_all st rs) ! i < fst (sendNow_all st rs) ! j"
proof -
  have i: "i < length rs" and b: "reqId st + i \<le> 2 ^ 53" using assms by simp_all
  show ?thesis
    unfolding sendNow_all_nth[OF i b] sendNow_all_nth[OF assms(2,3)] using assms(1) by simp
qed

text \<open>
  Three sends on a connected client with a socket, counted from \<open>reqId = 1\<close>: the ids are
  1, 2 and 3, and the requests written to the socket carry them.
\<close>

theorem request_ids_increase_witness:
  "fst (sendNow_all example_client [(''subscribe.a'', JUndefined, K_caller),
        (''call.a.set'', JNull, K_caller), (''auth.a.b'', JUndefined, K_caller)]) ! 0
     < fst (sendNow_all example_client [(''subscribe.a'', JUndefined, K_caller),
        (''call.a.set'', JNull, K_caller), (''auth.a.b'', JUndefined, K_caller)]) ! 2
   \<and> map req_id (sent (snd (sendNow_all example_client [(''subscribe.a'', JUndefined, K_caller),
        (''call.a.set'', JNull, K_caller), (''auth.a.b'', JUndefined, K_caller)]))) = [1, 2, 3]"
proof -
  have r: "reqId example_client = 1" by (simp add: example_client_def ResClient_new_def)
  have s: "map req_id (sent (snd (sendNow_all example_client [(''subscribe.a'', JUndefined, K_caller),
        (''call.a.set'', JNull, K_caller), (''auth.a.b'', JUndefined, K_caller)]))) = [1, 2, 3]"
    by (simp add: sendNow_def Let_def number_incr_def example_client_def ResClient_new_def)
  show ?thesis
    using request_ids_increase [of 0 2 "[(''subscribe.a'', JUndefined, K_caller),
        (''call.a.set'', JNull, K_caller), (''auth.a.b'', JUndefined, K_caller)]" example_client] r s
    by simp
qed

section \<open>Properties of setModel\<close>








lemma setModel_loop_other: "p \<noteq> r \<Longrightarrow> objs (setModel_loop st r ks) p = objs st p"
  by (induction ks arbitrary: st) (auto simp: setModel_loop_def prop_write_def split: option.splits)

lemma send_objs: "objs (send st m p k) = objs st"
  by (simp add: send_def sendNow_def connect_def Let_def)




text \<open>
  Claim C10. \<open>setModel\<close> leaves the caller's object as it was: the replacement is
  written to the copy, which is a newly allocated object.
\<close>

theorem setModel_frame:
  assumes "props < next_obj st"
  shows "objs (setModel st modelId props) props = objs st props"
proof -
  obtain r st1 where a: "object_assign_new st props = (r, st1)" by (cases "object_assign_new st props")
  then have r: "r = next_obj st" and o: "objs st1 props = objs st props"
    using assms by (auto simp: object_assign_new_def Let_def)
  have "props \<noteq> r" using r assms by simp
  then show ?thesis using a o by (simp add: setModel_def Let_def send_objs setModel_loop_other)
qed

theorem setModel_frame_witness:
  "(0::nat) < next_obj example_client
   \<and> objs (setModel example_client ''m.1'' 0) 0 = Some [(''a'', JUndefined), (''b'', JNum 2)]"
proof -
  have 1: "(0::nat) < next_obj example_client" by (simp add: example_client_def ResClient_new_def)
  show ?thesis using 1 setModel_frame [OF 1, of "''m.1''"]
    by (simp add: example_client_def ResClient_new_def)
qed

section \<open>Properties of _tryDelete\<close>

lemma delete_models_Own:
  "cache st r = Some c \<Longrightarrow>
   delete_models rc st (r # rs) =
     (case rc (removeIndirect st c) c of
        None \<Rightarrow> None
      | Some (Inl e, st1) \<Rightarrow> Some (Some e, st1)
      | Some (Inr b, st1) \<Rightarrow> delete_models rc st1 rs)"
  by (simp add: get_property_Some)

lemma delete_models_not_cached:
  "cache st r = None \<Longrightarrow>
   delete_models rc st (r # rs) =
     Some (Some (if r \<in> set object_prototype_members
                 then TypeError ''cacheModel.removeIndirect is not a function''
                 else ThrownString ''Collection model not found in cache''), st)"
  by (simp add: get_property_None)

lemma delete_models_ConsE:
  assumes "delete_models rc st (r # rs) = Some (out, st')"
  obtains (absent) e where "cache st r = None" "out = Some e" "st' = st"
    | (threw) c e where "cache st r = Some c" "rc (removeIndirect st c) c = Some (Inl e, st')"
        "out = Some e"
    | (continued) c b s1 where "cache st r = Some c"
        "rc (removeIndirect st c) c = Some (Inr b, s1)" "delete_models rc s1 rs = Some (out, st')"
proof (cases "cache st r")
  case None
  from assms absent[OF None] show ?thesis unfolding delete_models_not_cached[OF None] by auto
next
  case (Some c)
  note eq = delete_models_Own[OF Some, of rc rs]
  show ?thesis
  proof (cases "rc (removeIndirect st c) c")
    case None
    with assms eq show ?thesis by simp
  next
    case (Some p)
    obtain y s1 where p: "p = (y, s1)" by (cases p)
    show ?thesis
    proof (cases y)
      case (Inl e)
      with assms eq Some p have "out = Some e" "st' = s1" by simp_all
      with threw[OF \<open>cache st r = Some c\<close>, of e] Some p Inl show ?thesis by simp
    next
      case (Inr b)
      with assms eq Some p have "delete_models rc s1 rs = Some (out, st')" by simp
      with continued[OF \<open>cache st r = Some c\<close>, of b s1] Some p Inr show ?thesis by simp
    qed
  qed
qed

declare delete_models.simps(2) [simp del]

lemma delete_models_mono:
  assumes "\<And>s c r. rc s c = Some r \<Longrightarrow> rc' s c = Some r"
  shows "delete_models rc st rs = Some (out, st') \<Longrightarrow> delete_models rc' st rs = Some (out, st')"
proof (induction rs arbitrary: st)
  case Nil then show ?case by simp
next
  case (Cons r rs)
  from Cons.prems show ?case
  proof (cases rule: delete_models_ConsE)
    case (absent e)
    from Cons.prems show ?thesis unfolding delete_models_not_cached[OF absent(1)] .
  next
    case (threw c e)
    from assms[OF threw(2)] threw show ?thesis by (simp add: delete_models_Own)
  next
    case (continued c b s1)
    from assms[OF continued(2)] Cons.IH[OF continued(3)] continued(1)
    show ?thesis by (simp add: delete_models_Own)
  qed
qed

lemma tryDelete_Suc_mono: "tryDelete n st a = Some res \<Longrightarrow> tryDelete (Suc n) st a = Some res"
proof (induction n arbitrary: st a res)
  case 0 then show ?case by simp
next
  case (Suc n)
  have m: "\<And>s c r. tryDelete n s c = Some r \<Longrightarrow> tryDelete (Suc n) s c = Some r"
    using Suc.IH by blast
  show ?case
  proof (cases "indirect (heap st a) = 0 \<and> direct (heap st a) = 0 \<and>
      \<not> subscribed (heap st a) \<and> ci_isCollection (heap st a)")
    case False
    then show ?thesis using Suc.prems by (auto simp: Let_def)
  next
    case True
    show ?thesis
    proof (cases "item_models (ci_item (heap st a))")
      case (Inl e)
      then show ?thesis using True Suc.prems by (simp add: Let_def)
    next
      case (Inr rs)
      then obtain out s1 where r: "delete_models (tryDelete n) st rs = Some (out, s1)"
        using True Suc.prems by (auto simp: Let_def split: option.splits)
      have r': "delete_models (tryDelete (Suc n)) st rs = Some (out, s1)"
        by (rule delete_models_mono[where rc = "tryDelete n", OF m r])
      have "tryDelete (Suc (Suc n)) st a = tryDelete (Suc n) st a"
        using True Inr r r' by (simp add: Let_def)
      then show ?thesis using Suc.prems by simp
    qed
  qed
qed

lemma tryDelete_mono: "tryDelete n st a = Some res \<Longrightarrow> tryDelete (n + k) st a = Some res"
  by (induction k) (auto dest: tryDelete_Suc_mono)


lemma tryDelete_simple:
  assumes "indirect (heap st a) \<noteq> 0 \<or> direct (heap st a) \<noteq> 0 \<or> subscribed (heap st a) \<or>
           \<not> ci_isCollection (heap st a)"
  shows "tryDelete (Suc n) st a =
     Some (if indirect (heap st a) \<noteq> 0 then (Inr False, st)
           else if direct (heap st a) \<noteq> 0
           then (Inr False, if \<not> subscribed (heap st a) then setStale st (ci_rid (heap st a)) else st)
           else if subscribed (heap st a) then (Inr False, st)
           else (Inr True, st\<lparr>cache := (cache st)(ci_rid (heap st a) := None)\<rparr>))"
  using assms by (auto simp: Let_def)

lemma tryDelete_collection_eq:
  assumes "indirect (heap st a) = 0 \<and> direct (heap st a) = 0 \<and>
      \<not> subscribed (heap st a) \<and> ci_isCollection (heap st a)"
    and "item_models (ci_item (heap st a)) = Inr rs"
  shows "tryDelete (Suc n) st a =
     (case delete_models (tryDelete n) st rs of
        None \<Rightarrow> None
      | Some (Some e, st1) \<Rightarrow> Some (Inl e, st1)
      | Some (None, st1) \<Rightarrow>
          Some (Inr True, st1\<lparr>cache := (cache st1)(ci_rid (heap st a) := None)\<rparr>))"
  using assms by (simp add: Let_def)

lemma item_models_Inr: "item_models it = Inr rs \<longleftrightarrow> it = Some (CollectionItem rs)"
  by (auto simp: item_models_def split: option.splits resource.splits)

lemma setStale_frame:
  "heap (setStale st r) = heap st" "cache (setStale st r) = cache st"
  by (simp_all add: setStale_def)

text \<open>The ways in which a call of \<open>_tryDelete\<close> returns or throws.\<close>

lemma tryDelete_cases [consumes 1, case_names simple not_iterable threw removed]:
  assumes "tryDelete n st a = Some (res, st')"
  obtains
    (simple) b where "indirect (heap st a) \<noteq> 0 \<or> direct (heap st a) \<noteq> 0 \<or>
        subscribed (heap st a) \<or> \<not> ci_isCollection (heap st a)"
      "res = Inr b" "heap st' = heap st"
      "cache st' = (if b then (cache st)(ci_rid (heap st a) := None) else cache st)"
  | (not_iterable) e where "res = Inl e" "st' = st"
  | (threw) m rs e where "n = Suc m"
      "indirect (heap st a) = 0 \<and> direct (heap st a) = 0 \<and> \<not> subscribed (heap st a) \<and>
       ci_isCollection (heap st a)"
      "ci_item (heap st a) = Some (CollectionItem rs)"
      "delete_models (tryDelete m) st rs = Some (Some e, st')" "res = Inl e"
  | (removed) m rs s1 where "n = Suc m"
      "indirect (heap st a) = 0 \<and> direct (heap st a) = 0 \<and> \<not> subscribed (heap st a) \<and>
       ci_isCollection (heap st a)"
      "ci_item (heap st a) = Some (CollectionItem rs)"
      "delete_models (tryDelete m) st rs = Some (None, s1)" "res = Inr True"
      "st' = s1\<lparr>cache := (cache s1)(ci_rid (heap st a) := None)\<rparr>"
proof (cases n)
  case 0
  with assms show ?thesis by simp
next
  case (Suc m)
  show ?thesis
  proof (cases "indirect (heap st a) = 0 \<and> direct (heap st a) = 0 \<and>
      \<not> subscribed (heap st a) \<and> ci_isCollection (heap st a)")
    case False
    then have c: "indirect (heap st a) \<noteq> 0 \<or> direct (heap st a) \<noteq> 0 \<or> subscribed (heap st a) \<or>
           \<not> ci_isCollection (heap st a)" by blast
    define X :: "(error + bool) \<times> client" where "X = (if indirect (heap st a) \<noteq> 0 then (Inr False, st)
           else if direct (heap st a) \<noteq> 0
           then (Inr False, if \<not> subscribed (heap st a) then setStale st (ci_rid (heap st a)) else st)
           else if subscribed (heap st a) then (Inr False, st)
           else (Inr True, st\<lparr>cache := (cache st)(ci_rid (heap st a) := None)\<rparr>))"
    have "tryDelete (Suc m) st a = Some X" unfolding X_def by (rule tryDelete_simple[OF c])
    then have x: "X = (res, st')" using assms Suc by simp
    then have r: "res = fst X" and s: "st' = snd X" by simp_all
    have "\<exists>b. fst X = Inr b" unfolding X_def by auto
    then obtain b where b: "fst X = Inr b" by blast
    have h: "heap (snd X) = heap st" unfolding X_def by (simp add: setStale_frame)
    have k: "cache (snd X) = (if b then (cache st)(ci_rid (heap st a) := None) else cache st)"
      using b unfolding X_def by (auto simp: setStale_frame split: if_splits)
    show ?thesis using simple[OF c, of b] r s b h k by simp
  next
    case True
    show ?thesis
    proof (cases "item_models (ci_item (heap st a))")
      case (Inl e)
      have "tryDelete (Suc m) st a = Some (Inl e, st)" using True Inl by (simp add: Let_def)
      with assms Suc not_iterable[of e] show ?thesis by simp
    next
      case (Inr rs)
      note eq = tryDelete_collection_eq[OF True Inr, of m]
      from Inr have it: "ci_item (heap st a) = Some (CollectionItem rs)" by (simp add: item_models_Inr)
      show ?thesis
      proof (cases "delete_models (tryDelete m) st rs")
        case None
        with assms Suc eq show ?thesis by simp
      next
        case (Some p)
        obtain out s1 where p: "p = (out, s1)" by (cases p)
        show ?thesis
        proof (cases out)
          case None
          with assms Suc eq Some p removed[OF Suc True it, of s1] show ?thesis by simp
        next
          case (Some e)
          with assms Suc eq \<open>delete_models (tryDelete m) st rs = Some p\<close> p threw[OF Suc True it, of e]
          show ?thesis by simp
        qed
      qed
    qed
  qed
qed

section \<open>What a call of _tryDelete changes\<close>

lemma releases_refl: "releases s s"
  by (simp add: releases_def)

lemma releases_trans:
  assumes "releases s s1" and "releases s1 s2"
  shows "releases s s2"
proof -
  let ?H = "\<lambda>s s' x. ci_rid (heap s' x) = ci_rid (heap s x) \<and> ci_item (heap s' x) = ci_item (heap s x) \<and>
          ci_isCollection (heap s' x) = ci_isCollection (heap s x) \<and>
          direct (heap s' x) = direct (heap s x) \<and>
          subscribed (heap s' x) = subscribed (heap s x) \<and>
          ci_promise (heap s' x) = ci_promise (heap s x) \<and>
          indirect (heap s' x) \<le> indirect (heap s x)"
  have a: "\<And>x. ?H s s1 x" and ak: "\<And>k. cache s1 k = None \<or> cache s1 k = cache s k"
    using assms(1) by (simp_all add: releases_def)
  have b: "\<And>x. ?H s1 s2 x" and bk: "\<And>k. cache s2 k = None \<or> cache s2 k = cache s1 k"
    using assms(2) by (simp_all add: releases_def)
  have h: "\<And>x. ?H s s2 x"
  proof -
    fix x
    from a[of x] b[of x] show "?H s s2 x" by simp
  qed
  have k: "\<And>k. cache s2 k = None \<or> cache s2 k = cache s k"
  proof -
    fix k
    from ak[of k] bk[of k] show "cache s2 k = None \<or> cache s2 k = cache s k" by auto
  qed
  show ?thesis unfolding releases_def using h k by blast
qed

lemma releases_removeIndirect: "releases s (removeIndirect s c)"
  by (simp add: releases_def removeIndirect_def)

lemma releases_heap_cache:
  assumes "heap s' = heap s" and "\<forall>k. cache s' k = None \<or> cache s' k = cache s k"
  shows "releases s s'"
  using assms by (simp add: releases_def)

lemma releases_delete: "releases s s1 \<Longrightarrow> releases s (s1\<lparr>cache := (cache s1)(k := None)\<rparr>)"
  by (rule releases_trans[where ?s1.0 = s1]) (simp_all add: releases_def)

lemma delete_models_releases:
  assumes "\<And>s c res s'. rc s c = Some (res, s') \<Longrightarrow> releases s s'"
  shows "delete_models rc st rs = Some (out, st') \<Longrightarrow> releases st st'"
proof (induction rs arbitrary: st)
  case Nil then show ?case by (simp add: releases_refl)
next
  case (Cons r rs)
  from Cons.prems show ?case
  proof (cases rule: delete_models_ConsE)
    case (absent e)
    then show ?thesis by (simp add: releases_refl)
  next
    case (threw c e)
    from assms[OF threw(2)] show ?thesis
      by (rule releases_trans[OF releases_removeIndirect])
  next
    case (continued c b s1)
    from assms[OF continued(2)] have "releases st s1"
      by (rule releases_trans[OF releases_removeIndirect])
    then show ?thesis using Cons.IH[OF continued(3)] by (rule releases_trans)
  qed
qed

lemma tryDelete_releases: "tryDelete n st a = Some (res, st') \<Longrightarrow> releases st st'"
proof (induction n arbitrary: st a res st')
  case 0 then show ?case by simp
next
  case (Suc n)
  from Suc.prems show ?case
  proof (cases rule: tryDelete_cases)
    case (simple b)
    show ?thesis by (rule releases_heap_cache[OF simple(3)]) (simp add: simple(4))
  next
    case (not_iterable e)
    then show ?thesis by (simp add: releases_refl)
  next
    case (threw m rs e)
    then have d: "delete_models (tryDelete n) st rs = Some (Some e, st')" by simp
    show ?thesis by (rule delete_models_releases[where rc = "tryDelete n", OF _ d]) (rule Suc.IH)
  next
    case (removed m rs s1)
    then have d: "delete_models (tryDelete n) st rs = Some (None, s1)" by simp
    have "releases st s1"
      by (rule delete_models_releases[where rc = "tryDelete n", OF _ d]) (rule Suc.IH)
    then show ?thesis unfolding removed(6) by (rule releases_delete)
  qed
qed

section \<open>_tryDelete returns\<close>

lemma releases_dom: "releases s s' \<Longrightarrow> dom (cache s') \<subseteq> dom (cache s)"
proof
  fix k assume r: "releases s s'" and k: "k \<in> dom (cache s')"
  from r have "cache s' k = None \<or> cache s' k = cache s k" by (simp add: releases_def)
  with k show "k \<in> dom (cache s)" by auto
qed

lemma releases_finite: "releases s s' \<Longrightarrow> finite (dom (cache s)) \<Longrightarrow> finite (dom (cache s'))"
  by (rule finite_subset[OF releases_dom])

lemma referred_finite: "finite (dom (cache s)) \<Longrightarrow> finite (referred s)"
  by (rule finite_subset[of _ "ran (cache s)"]) (auto simp: referred_def finite_ran)

lemma releases_referred: "releases s s' \<Longrightarrow> referred s' \<subseteq> referred s"
proof
  fix c assume r: "releases s s'" and c: "c \<in> referred s'"
  from c obtain k where k: "cache s' k = Some c" and i: "0 < indirect (heap s' c)"
    by (auto simp: referred_def ran_def)
  from r have "cache s' k = None \<or> cache s' k = cache s k" by (simp add: releases_def)
  with k have "cache s k = Some c" by auto
  moreover from r have "indirect (heap s' c) \<le> indirect (heap s c)" by (simp add: releases_def)
  ultimately show "c \<in> referred s" using i by (auto simp: referred_def ran_def)
qed

lemma referred_last:
  assumes "cache s r = Some c" and "indirect (heap s c) = 1" and "finite (dom (cache s))"
  shows "card (referred (removeIndirect s c)) < card (referred s)"
proof (rule psubset_card_mono[OF referred_finite[OF assms(3)]])
  have "c \<in> referred s" using assms(1,2) by (auto simp: referred_def ran_def)
  moreover have "c \<notin> referred (removeIndirect s c)"
    using assms(2) by (simp add: referred_def removeIndirect_def)
  moreover have "referred (removeIndirect s c) \<subseteq> referred s"
    by (rule releases_referred[OF releases_removeIndirect])
  ultimately show "referred (removeIndirect s c) \<subset> referred s" by blast
qed

lemma Some_pair: "\<exists>a b. Some x = Some (a, b)"
  by (cases x) simp

lemma tryDelete_returns_bound:
  "finite (dom (cache s)) \<Longrightarrow> card (referred s) < n \<Longrightarrow>
   \<exists>res s'. tryDelete (Suc n) s a = Some (res, s')"
proof (induction n arbitrary: s a)
  case 0
  then show ?case by simp
next
  case (Suc n)
  have child: "\<exists>res s'. tryDelete (Suc n) (removeIndirect s0 c) c = Some (res, s')"
    if f: "finite (dom (cache s0))" and k: "card (referred s0) \<le> n" and c: "cache s0 r = Some c"
    for s0 c r
  proof (cases "indirect (heap (removeIndirect s0 c) c) \<noteq> 0 \<or> direct (heap (removeIndirect s0 c) c) \<noteq> 0 \<or>
      subscribed (heap (removeIndirect s0 c) c) \<or> \<not> ci_isCollection (heap (removeIndirect s0 c) c)")
    case True
    show ?thesis unfolding tryDelete_simple[OF True] by (rule Some_pair)
  next
    case False
    then have "indirect (heap s0 c) = 1" by (simp add: removeIndirect_def)
    from referred_last[OF c this f] k have "card (referred (removeIndirect s0 c)) < n" by simp
    moreover have "finite (dom (cache (removeIndirect s0 c)))" using f by (simp add: removeIndirect_def)
    ultimately show ?thesis by (rule Suc.IH[rotated])
  qed
  have loop: "\<exists>out s'. delete_models (tryDelete (Suc n)) s0 rs = Some (out, s')"
    if "releases s s0" for s0 rs
    using that
  proof (induction rs arbitrary: s0)
    case Nil
    then show ?case by simp
  next
    case (Cons r rs)
    have f0: "finite (dom (cache s0))" by (rule releases_finite[OF Cons.prems Suc.prems(1)])
    have "card (referred s0) \<le> card (referred s)"
      by (rule card_mono[OF referred_finite[OF Suc.prems(1)] releases_referred[OF Cons.prems]])
    then have k0: "card (referred s0) \<le> n" using Suc.prems(2) by simp
    show ?case
    proof (cases "cache s0 r")
      case None
      show ?thesis unfolding delete_models_not_cached[OF None] by (rule Some_pair)
    next
      case (Some c)
      from child[OF f0 k0 Some] obtain res s2 where
        t: "tryDelete (Suc n) (removeIndirect s0 c) c = Some (res, s2)" by blast
      have "releases s0 s2"
        by (rule releases_trans[OF releases_removeIndirect tryDelete_releases[OF t]])
      then have r2: "releases s s2" by (rule releases_trans[OF Cons.prems])
      show ?thesis
      proof (cases res)
        case (Inl e)
        show ?thesis unfolding delete_models_Own[OF Some] t Inl
          by (simp only: option.case prod.case sum.case) (rule Some_pair)
      next
        case (Inr b)
        from Cons.IH[OF r2] show ?thesis unfolding delete_models_Own[OF Some] t Inr
          by (simp only: option.case prod.case sum.case)
      qed
    qed
  qed
  show ?case
  proof (cases "indirect (heap s a) = 0 \<and> direct (heap s a) = 0 \<and>
      \<not> subscribed (heap s a) \<and> ci_isCollection (heap s a)")
    case False
    then have c: "indirect (heap s a) \<noteq> 0 \<or> direct (heap s a) \<noteq> 0 \<or> subscribed (heap s a) \<or>
           \<not> ci_isCollection (heap s a)" by blast
    show ?thesis unfolding tryDelete_simple[OF c] by (rule Some_pair)
  next
    case True
    show ?thesis
    proof (cases "item_models (ci_item (heap s a))")
      case (Inl e)
      then show ?thesis using True by (simp add: Let_def)
    next
      case (Inr rs)
      from loop[OF releases_refl, of rs] obtain out s1 where
        d: "delete_models (tryDelete (Suc n)) s rs = Some (out, s1)" by blast
      show ?thesis unfolding tryDelete_collection_eq[OF True Inr] d
        by (cases out) (simp_all only: option.case prod.case, (rule Some_pair)+)
    qed
  qed
qed

lemma tryDelete_returns:
  assumes "finite (dom (cache s))"
  shows "\<exists>n res s'. tryDelete n s a = Some (res, s')"
  using tryDelete_returns_bound[OF assms, of "Suc (card (referred s))" a] by blast

section \<open>The models of a released collection\<close>




lemma releases_fields:
  assumes "releases s s'"
  shows "ci_rid (heap s' x) = ci_rid (heap s x)" "direct (heap s' x) = direct (heap s x)"
    "subscribed (heap s' x) = subscribed (heap s x)"
    "ci_isCollection (heap s' x) = ci_isCollection (heap s x)"
    "ci_item (heap s' x) = ci_item (heap s x)"
  using assms by (simp_all add: releases_def)











text \<open>
  The collection \<open>rooms\<close> with \<open>room.2\<close> taken out of the cache: the collection has no
  reference and no subscription, and the loop over its models throws when it comes to
  \<open>room.2\<close>, after \<open>room.1\<close> has been released, so the collection stays in the cache.
\<close>

lemma tryDelete_missing_child:
  "\<exists>st'. tryDelete 2 (example_cache\<lparr>cache := [''rooms'' \<mapsto> 0, ''room.1'' \<mapsto> 1]\<rparr>) 0 =
          Some (Inl (ThrownString ''Collection model not found in cache''), st') \<and>
        cache st' ''rooms'' = Some 0 \<and> cache st' ''room.1'' = None"
  by (simp add: example_cache_def ResClient_new_def numeral_2_eq_2 Let_def item_models_def
      delete_models.simps(2) get_property_def object_prototype_members_def removeIndirect_def)





section \<open>Properties of the release callback\<close>

lemma tryDelete_subscribed:
  "tryDelete n st a = Some (res, st') \<Longrightarrow> \<forall>x. subscribed (heap st' x) = subscribed (heap st x)"
  using releases_fields(3)[OF tryDelete_releases] by blast

lemma tryDelete_while_subscribed:
  "subscribed (heap st a) \<Longrightarrow> tryDelete (Suc n) st a = Some (Inr False, st)"
  by (simp add: Let_def)











section \<open>Properties of getResource\<close>












section \<open>Properties of the collection diff\<close>

text \<open>
  The scenario of the specification at the level of the callbacks: for \<open>[A, B, C]\<close> and
  \<open>[A, C, D]\<close>, \<open>_patchDiff\<close> calls \<open>onRemove(B, 1, 1)\<close> and later \<open>onAdd(D, 2, 2)\<close>;
  its other calls are keeps, and the two operations turn the first list into the second.
\<close>

lemma patchDiff_scenario:
  "patchDiff [''A'', ''B'', ''C''] [''A'', ''C'', ''D''] =
     [Keep (Some ''C'') 2 1 2, Remove (Some ''B'') 1 1, Keep (Some ''A'') 0 0 0,
      Add (Some ''D'') 2 2]"
  by code_simp

lemma patchDiff_scenario_applied:
  "apply_calls [''A'', ''B'', ''C''] (patchDiff [''A'', ''B'', ''C''] [''A'', ''C'', ''D'']) =
     [''A'', ''C'', ''D'']"
  by code_simp

text \<open>
  Claim C1 fails on the code in two places. The second trimming loop runs while
  \<open>s <= m && s <= n\<close>, so it can compare an element of the matched prefix again: for
  \<open>a = [A]\<close> and \<open>b = [A, A]\<close> the only call is a keep, and applying the emitted operations
  to \<open>a\<close> leaves \<open>[A]\<close>, not \<open>b\<close>. And the \<open>onRemove\<close> callback of \<open>_syncResource\<close>
  drops the index: in the scenario of the specification the remove event for \<open>B\<close> carries no
  \<open>idx\<close>.
\<close>

theorem patchDiff_duplicate_lost:
  "patchDiff [''A''] [''A'', ''A''] = [Keep (Some ''A'') 0 0 0]
   \<and> apply_calls [''A''] (patchDiff [''A''] [''A'', ''A'']) = [''A'']
   \<and> syncResource_events [''A'', ''B'', ''C''] [''A'', ''C'', ''D''] =
       [RemoveEvent (Some ''B'') None, AddEvent (Some ''D'') (Some 2)]"
proof -
  have 1: "patchDiff [''A''] [''A'', ''A''] = [Keep (Some ''A'') 0 0 0]"
    by code_simp
  have 2: "apply_calls [''A''] (patchDiff [''A''] [''A'', ''A'']) = [''A'']"
    unfolding 1 by (simp add: apply_calls_def)
  have 3: "syncResource_events [''A'', ''B'', ''C''] [''A'', ''C'', ''D''] =
       [RemoveEvent (Some ''B'') None, AddEvent (Some ''D'') (Some 2)]"
    by code_simp
  show ?thesis using 1 2 3 by blast
qed

subsection \<open>Lists without repeated ids\<close>

declare trim_start.simps [simp del] trim_end.simps [simp del] keep_suffix.simps [simp del]
  diff_loop.simps [simp del] keep_prefix.simps [simp del] do_adds.simps [simp del]

lemma keep_suffix_keeps:
  "\<exists>ks. keep_suffix a s m n i calls = calls @ ks \<and> (\<forall>x\<in>set ks. is_keep x)"
proof (induction a s m n i calls rule: keep_suffix.induct)
  case (1 a s m n i calls)
  show ?case
  proof (cases "i \<ge> s + m")
    case True
    from 1[OF True] obtain ks where
      "keep_suffix a s m n (i - 1) (calls @ [Keep (js_nth a i) i (i - m + n) i]) =
         (calls @ [Keep (js_nth a i) i (i - m + n) i]) @ ks" and "\<forall>x\<in>set ks. is_keep x"
      by blast
    then show ?thesis using True
      by (subst keep_suffix.simps) (auto simp: is_keep_def intro!: exI[of _ "Keep (js_nth a i) i (i - m + n) i # ks"])
  next
    case False
    then show ?thesis by (subst keep_suffix.simps) simp
  qed
qed

lemma keep_prefix_keeps:
  "\<exists>ks. keep_prefix a i calls = calls @ ks \<and> (\<forall>x\<in>set ks. is_keep x)"
proof (induction a i calls rule: keep_prefix.induct)
  case (1 a i calls)
  show ?case
  proof (cases "i \<ge> 0")
    case True
    from 1[OF True] obtain ks where
      "keep_prefix a (i - 1) (calls @ [Keep (js_nth a i) i i i]) =
         (calls @ [Keep (js_nth a i) i i i]) @ ks" and "\<forall>x\<in>set ks. is_keep x"
      by blast
    then show ?thesis using True
      by (subst keep_prefix.simps) (auto simp: is_keep_def intro!: exI[of _ "Keep (js_nth a i) i i i # ks"])
  next
    case False
    then show ?thesis by (subst keep_prefix.simps) simp
  qed
qed

lemma do_adds_eq:
  "-1 \<le> i \<Longrightarrow>
   do_adds bb s r adds len i calls =
     calls @ map (\<lambda>k. case adds ! k of (n, idx, j) \<Rightarrow>
                      Add (js_nth bb n) (n + s) (idx - r + j + len - int k))
               (rev [0..<nat (i + 1)])"
proof (induction bb s r adds len i calls rule: do_adds.induct)
  case (1 bb s r adds len i calls)
  show ?case
  proof (cases "i \<ge> 0")
    case True
    obtain n idx j where e: "adds ! nat i = (n, idx, j)" by (cases "adds ! nat i")
    have le: "-1 \<le> i - 1" using True by simp
    have up: "[0..<nat (i + 1)] = [0..<nat (i - 1 + 1)] @ [nat i]"
      using True by (metis add.commute diff_add_cancel nat_0_le nat_int of_nat_Suc upt_Suc_append zero_le)
    note ih = "1.IH"[OF True e[symmetric] refl le]
    show ?thesis
      apply (subst do_adds.simps)
      using True e ih up by simp
  next
    case False
    then have "i = -1" using "1.prems" by simp
    then show ?thesis by (subst do_adds.simps) simp
  qed
qed

lemma loop_post_end: "loop_post aa bb s 0 0 r adds calls r adds calls"
  unfolding loop_post_def
  by (rule exI[of _ "[]"], rule exI[of _ "[]"], rule exI[of _ "[]"]) (simp add: apply_calls_def)

lemma loop_post_keep:
  assumes i: "0 < i" "i \<le> int (length aa)" and j: "0 < j" "j \<le> int (length bb)"
    and eq: "js_nth aa (i - 1) = js_nth bb (j - 1)"
    and ih: "loop_post aa bb s (i - 1) (j - 1) r adds (calls @ [Keep x y z w]) r' adds' calls'"
  shows "loop_post aa bb s i j r adds calls r' adds' calls'"
proof -
  from ih obtain K new kept where
    c: "calls' = (calls @ [Keep x y z w]) @ K" and a: "adds' = adds @ new"
    and r: "r' = r + (i - 1 - int (length kept))"
    and l: "int (length new) = j - 1 - int (length kept)"
    and k: "\<forall>x\<in>set K. \<not> is_add x"
    and ap: "\<And>P T. int (length P) = s \<Longrightarrow>
            apply_calls (P @ take (nat (i - 1)) aa @ T) K = P @ kept @ T"
    and pos: "\<And>e. e < length new \<Longrightarrow> (case new ! e of (n, idx, re) \<Rightarrow>
            0 \<le> n \<and> n < j - 1 \<and> idx - r' + re + (int (length new) - 1 - int e) = n + s)"
    and st: "\<And>Z. foldl (ins bb) (kept @ Z) (rev (map fst new)) = take (nat (j - 1)) bb @ Z"
    unfolding loop_post_def by blast
  define v where "v = aa ! nat (i - 1)"
  have vb: "v = bb ! nat (j - 1)" using eq i j by (simp add: js_nth_def v_def)
  have ta: "take (nat i) aa = take (nat (i - 1)) aa @ [v]"
  proof -
    have "nat i = Suc (nat (i - 1))" using i by simp
    moreover have "nat (i - 1) < length aa" using i by simp
    ultimately show ?thesis unfolding v_def by (simp add: take_Suc_conv_app_nth)
  qed
  have tb: "take (nat j) bb = take (nat (j - 1)) bb @ [v]"
  proof -
    have "nat j = Suc (nat (j - 1))" using j by simp
    moreover have "nat (j - 1) < length bb" using j by simp
    ultimately show ?thesis unfolding vb by (simp add: take_Suc_conv_app_nth)
  qed
  show ?thesis
    unfolding loop_post_def
  proof (intro exI[of _ "Keep x y z w # K"] exI[of _ new] exI[of _ "kept @ [v]"] conjI allI impI ballI)
    show "calls' = calls @ Keep x y z w # K" using c by simp
    show "adds' = adds @ new" by (rule a)
    show "r' = r + (i - int (length (kept @ [v])))" using r by simp
    show "int (length new) = j - int (length (kept @ [v]))" using l by simp
  next
    fix q assume "q \<in> set (Keep x y z w # K)"
    then show "\<not> is_add q" using k by (auto simp: is_add_def)
  next
    fix P T :: "rid list" assume P: "int (length P) = s"
    have "apply_calls (P @ take (nat i) aa @ T) (Keep x y z w # K) =
        apply_calls (P @ take (nat (i - 1)) aa @ (v # T)) K"
      unfolding ta by (simp add: apply_calls_def)
    also have "\<dots> = P @ kept @ v # T" by (rule ap[OF P])
    finally show "apply_calls (P @ take (nat i) aa @ T) (Keep x y z w # K) = P @ (kept @ [v]) @ T"
      by simp
  next
    fix e assume e: "e < length new"
    from pos[OF e] show "case new ! e of (n, idx, re) \<Rightarrow>
            0 \<le> n \<and> n < j \<and> idx - r' + re + (int (length new) - 1 - int e) = n + s"
      by (auto split: prod.splits)
  next
    fix Z
    have "foldl (ins bb) ((kept @ [v]) @ Z) (rev (map fst new)) =
        foldl (ins bb) (kept @ (v # Z)) (rev (map fst new))" by simp
    also have "\<dots> = take (nat (j - 1)) bb @ v # Z" by (rule st)
    finally show "foldl (ins bb) ((kept @ [v]) @ Z) (rev (map fst new)) = take (nat j) bb @ Z"
      unfolding tb by simp
  qed
qed

lemma loop_post_add:
  assumes i: "0 \<le> i" and j: "0 < j" "j \<le> int (length bb)"
    and ih: "loop_post aa bb s i (j - 1) r (adds @ [(j - 1, i + s, r)]) calls r' adds' calls'"
  shows "loop_post aa bb s i j r adds calls r' adds' calls'"
proof -
  from ih obtain K new kept where
    c: "calls' = calls @ K" and a: "adds' = (adds @ [(j - 1, i + s, r)]) @ new"
    and r: "r' = r + (i - int (length kept))"
    and l: "int (length new) = j - 1 - int (length kept)"
    and k: "\<forall>x\<in>set K. \<not> is_add x"
    and ap: "\<And>P T. int (length P) = s \<Longrightarrow>
            apply_calls (P @ take (nat i) aa @ T) K = P @ kept @ T"
    and pos: "\<And>e. e < length new \<Longrightarrow> (case new ! e of (n, idx, re) \<Rightarrow>
            0 \<le> n \<and> n < j - 1 \<and> idx - r' + re + (int (length new) - 1 - int e) = n + s)"
    and st: "\<And>Z. foldl (ins bb) (kept @ Z) (rev (map fst new)) = take (nat (j - 1)) bb @ Z"
    unfolding loop_post_def by blast
  let ?new = "(j - 1, i + s, r) # new"
  have tb: "take (nat j) bb = take (nat (j - 1)) bb @ [bb ! nat (j - 1)]"
  proof -
    have "nat j = Suc (nat (j - 1))" using j by simp
    moreover have "nat (j - 1) < length bb" using j by simp
    ultimately show ?thesis by (simp add: take_Suc_conv_app_nth)
  qed
  have lt: "length (take (nat (j - 1)) bb) = nat (j - 1)" using j by simp
  show ?thesis
    unfolding loop_post_def
  proof (intro exI[of _ K] exI[of _ ?new] exI[of _ kept] conjI allI impI ballI)
    show "calls' = calls @ K" by (rule c)
    show "adds' = adds @ ?new" using a by simp
    show "r' = r + (i - int (length kept))" by (rule r)
    show "int (length ?new) = j - int (length kept)" using l by simp
  next
    fix q assume "q \<in> set K" then show "\<not> is_add q" using k by simp
  next
    fix P T :: "rid list" assume "int (length P) = s"
    then show "apply_calls (P @ take (nat i) aa @ T) K = P @ kept @ T" by (rule ap)
  next
    fix e assume e: "e < length ?new"
    show "case ?new ! e of (n, idx, re) \<Rightarrow>
            0 \<le> n \<and> n < j \<and> idx - r' + re + (int (length ?new) - 1 - int e) = n + s"
    proof (cases e)
      case 0
      then show ?thesis using j r l by simp
    next
      case (Suc e')
      then have "e' < length new" using e by simp
      from pos[OF this] show ?thesis using Suc by (auto split: prod.splits)
    qed
  next
    fix Z
    have "foldl (ins bb) (kept @ Z) (rev (map fst ?new)) =
        ins bb (foldl (ins bb) (kept @ Z) (rev (map fst new))) (j - 1)" by simp
    also have "\<dots> = ins bb (take (nat (j - 1)) bb @ Z) (j - 1)" unfolding st ..
    also have "\<dots> = take (nat (j - 1)) bb @ bb ! nat (j - 1) # Z"
      unfolding ins_def using lt by simp
    finally show "foldl (ins bb) (kept @ Z) (rev (map fst ?new)) = take (nat j) bb @ Z"
      unfolding tb by simp
  qed
qed

lemma remove_at_length:
  "length L = k \<Longrightarrow> take k (L @ v # T) @ drop (k + 1) (L @ v # T) = L @ T"
  by simp

lemma loop_post_remove:
  assumes i: "0 < i" "i \<le> int (length aa)" and s: "0 \<le> s"
    and ih: "loop_post aa bb s (i - 1) j (r + 1) adds (calls @ [Remove x y (i - 1 + s)]) r' adds' calls'"
  shows "loop_post aa bb s i j r adds calls r' adds' calls'"
proof -
  from ih obtain K new kept where
    c: "calls' = (calls @ [Remove x y (i - 1 + s)]) @ K" and a: "adds' = adds @ new"
    and r: "r' = r + 1 + (i - 1 - int (length kept))"
    and l: "int (length new) = j - int (length kept)"
    and k: "\<forall>x\<in>set K. \<not> is_add x"
    and ap: "\<And>P T. int (length P) = s \<Longrightarrow>
            apply_calls (P @ take (nat (i - 1)) aa @ T) K = P @ kept @ T"
    and pos: "\<And>e. e < length new \<Longrightarrow> (case new ! e of (n, idx, re) \<Rightarrow>
            0 \<le> n \<and> n < j \<and> idx - r' + re + (int (length new) - 1 - int e) = n + s)"
    and st: "\<And>Z. foldl (ins bb) (kept @ Z) (rev (map fst new)) = take (nat j) bb @ Z"
    unfolding loop_post_def by blast
  define v where "v = aa ! nat (i - 1)"
  have ta: "take (nat i) aa = take (nat (i - 1)) aa @ [v]"
  proof -
    have "nat i = Suc (nat (i - 1))" using i by simp
    moreover have "nat (i - 1) < length aa" using i by simp
    ultimately show ?thesis unfolding v_def by (simp add: take_Suc_conv_app_nth)
  qed
  show ?thesis
    unfolding loop_post_def
  proof (intro exI[of _ "Remove x y (i - 1 + s) # K"] exI[of _ new] exI[of _ kept] conjI allI impI ballI)
    show "calls' = calls @ Remove x y (i - 1 + s) # K" using c by simp
    show "adds' = adds @ new" by (rule a)
    show "r' = r + (i - int (length kept))" using r by simp
    show "int (length new) = j - int (length kept)" by (rule l)
  next
    fix q assume "q \<in> set (Remove x y (i - 1 + s) # K)"
    then show "\<not> is_add q" using k by (auto simp: is_add_def)
  next
    fix P T :: "rid list" assume P: "int (length P) = s"
    let ?L = "P @ take (nat (i - 1)) aa"
    have len: "length ?L = nat (i - 1 + s)" using P i s by (simp add: nat_add_distrib)
    have "apply_call (P @ take (nat i) aa @ T) (Remove x y (i - 1 + s)) =
        apply_call (?L @ v # T) (Remove x y (i - 1 + s))" unfolding ta by simp
    also have "\<dots> = ?L @ T" using remove_at_length[OF len, of v T] by (simp del: append_assoc)
    finally have 1: "apply_call (P @ take (nat i) aa @ T) (Remove x y (i - 1 + s)) =
        P @ take (nat (i - 1)) aa @ T" by simp
    show "apply_calls (P @ take (nat i) aa @ T) (Remove x y (i - 1 + s) # K) = P @ kept @ T"
      using ap[OF P, of T] 1 by (simp add: apply_calls_def)
  next
    fix e assume e: "e < length new"
    from pos[OF e] show "case new ! e of (n, idx, re) \<Rightarrow>
            0 \<le> n \<and> n < j \<and> idx - r' + re + (int (length new) - 1 - int e) = n + s" .
  next
    fix Z show "foldl (ins bb) (kept @ Z) (rev (map fst new)) = take (nat j) bb @ Z" by (rule st)
  qed
qed

lemma diff_loop_keep:
  "i > 0 \<and> j > 0 \<and> js_nth aa (i - 1) = js_nth bb (j - 1) \<Longrightarrow>
   diff_loop aa bb c s i j idx r adds calls =
     diff_loop aa bb c s (i - 1) (j - 1) (idx - 1) r adds
       (calls @ [Keep (js_nth aa (i - 1)) (i - 1 + s) (j - 1 + s) (idx - 1)])"
  by (subst diff_loop.simps) (simp only: Let_def if_True if_False simp_thms)

lemma diff_loop_add:
  "\<not> (i > 0 \<and> j > 0 \<and> js_nth aa (i - 1) = js_nth bb (j - 1)) \<Longrightarrow>
   j > 0 \<and> (i = 0 \<or> cell c i (j - 1) \<ge> cell c (i - 1) j) \<Longrightarrow>
   diff_loop aa bb c s i j idx r adds calls =
     diff_loop aa bb c s i (j - 1) idx r (adds @ [(j - 1, idx, r)]) calls"
  by (subst diff_loop.simps) (simp only: Let_def if_True if_False simp_thms)

lemma diff_loop_remove:
  "\<not> (i > 0 \<and> j > 0 \<and> js_nth aa (i - 1) = js_nth bb (j - 1)) \<Longrightarrow>
   \<not> (j > 0 \<and> (i = 0 \<or> cell c i (j - 1) \<ge> cell c (i - 1) j)) \<Longrightarrow>
   i > 0 \<and> (j = 0 \<or> cell c i (j - 1) < cell c (i - 1) j) \<Longrightarrow>
   diff_loop aa bb c s i j idx r adds calls =
     diff_loop aa bb c s (i - 1) j (idx - 1) (r + 1) adds
       (calls @ [Remove (js_nth aa (i - 1)) (i - 1 + s) (idx - 1)])"
  by (subst diff_loop.simps) (simp only: Let_def if_True if_False simp_thms)

lemma diff_loop_end:
  "\<not> (i > 0 \<and> j > 0 \<and> js_nth aa (i - 1) = js_nth bb (j - 1)) \<Longrightarrow>
   \<not> (j > 0 \<and> (i = 0 \<or> cell c i (j - 1) \<ge> cell c (i - 1) j)) \<Longrightarrow>
   \<not> (i > 0 \<and> (j = 0 \<or> cell c i (j - 1) < cell c (i - 1) j)) \<Longrightarrow>
   diff_loop aa bb c s i j idx r adds calls = (r, adds, calls)"
  by (subst diff_loop.simps) (simp only: Let_def if_True if_False simp_thms)

lemma diff_loop_post:
  assumes "0 \<le> i" "i \<le> int (length aa)" "0 \<le> j" "j \<le> int (length bb)" "0 \<le> s"
    and "diff_loop aa bb c s i j (i + s) r adds calls = (r', adds', calls')"
  shows "loop_post aa bb s i j r adds calls r' adds' calls'"
  using assms
proof (induction "nat i + nat j" arbitrary: i j r adds calls rule: less_induct)
  case less
  note i = less.prems(1,2) and j = less.prems(3,4) and s = less.prems(5) and res = less.prems(6)
  let ?keep = "i > 0 \<and> j > 0 \<and> js_nth aa (i - 1) = js_nth bb (j - 1)"
  let ?add = "j > 0 \<and> (i = 0 \<or> cell c i (j - 1) \<ge> cell c (i - 1) j)"
  let ?rem = "i > 0 \<and> (j = 0 \<or> cell c i (j - 1) < cell c (i - 1) j)"
  show ?case
  proof (cases ?keep)
    case True
    have eq: "diff_loop aa bb c s i j (i + s) r adds calls =
        diff_loop aa bb c s (i - 1) (j - 1) (i - 1 + s) r adds
          (calls @ [Keep (js_nth aa (i - 1)) (i - 1 + s) (j - 1 + s) (i + s - 1)])"
    proof -
      have a: "i + s - 1 = i - 1 + s" by simp
      show ?thesis using diff_loop_keep[OF True, of c s "i + s" r adds calls] unfolding a .
    qed
    have m: "nat (i - 1) + nat (j - 1) < nat i + nat j" using True by linarith
    have p: "0 \<le> i - 1" "i - 1 \<le> int (length aa)" "0 \<le> j - 1" "j - 1 \<le> int (length bb)"
      using True i j by linarith+
    have rr: "diff_loop aa bb c s (i - 1) (j - 1) (i - 1 + s) r adds
          (calls @ [Keep (js_nth aa (i - 1)) (i - 1 + s) (j - 1 + s) (i + s - 1)]) = (r', adds', calls')"
      using res unfolding eq .
    have ih: "loop_post aa bb s (i - 1) (j - 1) r adds
        (calls @ [Keep (js_nth aa (i - 1)) (i - 1 + s) (j - 1 + s) (i + s - 1)]) r' adds' calls'"
      by (rule less.hyps[OF m p s rr])
    have ip: "0 < i" and jp: "0 < j" and e: "js_nth aa (i - 1) = js_nth bb (j - 1)"
      using True by blast+
    show ?thesis by (rule loop_post_keep[OF ip i(2) jp j(2) e ih])
  next
    case nk: False
    show ?thesis
    proof (cases ?add)
      case True
      have eq: "diff_loop aa bb c s i j (i + s) r adds calls =
          diff_loop aa bb c s i (j - 1) (i + s) r (adds @ [(j - 1, i + s, r)]) calls"
        by (rule diff_loop_add[OF nk True])
      have m: "nat i + nat (j - 1) < nat i + nat j" using True by linarith
      have p: "0 \<le> j - 1" "j - 1 \<le> int (length bb)" using True j by linarith+
      have rr: "diff_loop aa bb c s i (j - 1) (i + s) r (adds @ [(j - 1, i + s, r)]) calls =
          (r', adds', calls')"
        using res unfolding eq .
      have ih: "loop_post aa bb s i (j - 1) r (adds @ [(j - 1, i + s, r)]) calls r' adds' calls'"
        by (rule less.hyps[OF m i p s rr])
      have jp: "0 < j" using True by blast
      show ?thesis by (rule loop_post_add[OF i(1) jp j(2) ih])
    next
      case na: False
      show ?thesis
      proof (cases ?rem)
        case True
        have eq: "diff_loop aa bb c s i j (i + s) r adds calls =
            diff_loop aa bb c s (i - 1) j (i - 1 + s) (r + 1) adds
              (calls @ [Remove (js_nth aa (i - 1)) (i - 1 + s) (i - 1 + s)])"
        proof -
          have a: "i + s - 1 = i - 1 + s" by simp
          show ?thesis using diff_loop_remove[OF nk na True, of s "i + s" r adds calls]
            unfolding a .
        qed
        have m: "nat (i - 1) + nat j < nat i + nat j" using True by linarith
        have p: "0 \<le> i - 1" "i - 1 \<le> int (length aa)" using True i by linarith+
        have rr: "diff_loop aa bb c s (i - 1) j (i - 1 + s) (r + 1) adds
              (calls @ [Remove (js_nth aa (i - 1)) (i - 1 + s) (i - 1 + s)]) = (r', adds', calls')"
          using res unfolding eq .
        have ih: "loop_post aa bb s (i - 1) j (r + 1) adds
            (calls @ [Remove (js_nth aa (i - 1)) (i - 1 + s) (i - 1 + s)]) r' adds' calls'"
          by (rule less.hyps[OF m p j s rr])
        have ip: "0 < i" using True by blast
        show ?thesis by (rule loop_post_remove[OF ip i(2) s ih])
      next
        case nr: False
        have j0: "j = 0"
        proof (rule ccontr)
          assume "j \<noteq> 0"
          then have jp: "j > 0" using j by simp
          with na have ip: "i \<noteq> 0" and lt: "cell c i (j - 1) < cell c (i - 1) j" by auto
          then have "i > 0" using i by simp
          with nr jp lt show False by simp
        qed
        have i0: "i = 0" using nr j0 i by simp
        have "diff_loop aa bb c s i j (i + s) r adds calls = (r, adds, calls)"
          by (rule diff_loop_end[OF nk na nr])
        then have "r' = r" "adds' = adds" "calls' = calls" using res by simp_all
        then show ?thesis unfolding i0 j0 using loop_post_end by simp
      qed
    qed
  qed
qed

lemma js_nth_Some: "0 \<le> i \<Longrightarrow> i < int (length xs) \<Longrightarrow> js_nth xs i = Some (xs ! nat i)"
  by (simp add: js_nth_def)

lemma js_nth_None: "i < 0 \<Longrightarrow> js_nth xs i = None"
  by (simp add: js_nth_def)

lemma trim_start_spec:
  assumes "0 \<le> s0" "s0 \<le> int (length a)" "s0 \<le> int (length b)"
    and "take (nat s0) a = take (nat s0) b"
  shows "s0 \<le> trim_start a b s0 \<and> trim_start a b s0 \<le> int (length a) \<and>
         trim_start a b s0 \<le> int (length b) \<and>
         take (nat (trim_start a b s0)) a = take (nat (trim_start a b s0)) b \<and>
         (trim_start a b s0 < int (length a) \<and> trim_start a b s0 < int (length b) \<longrightarrow>
            a ! nat (trim_start a b s0) \<noteq> b ! nat (trim_start a b s0))"
  using assms
proof (induction a b s0 rule: trim_start.induct)
  case (1 a b s)
  let ?c = "s < int (length a) \<and> s < int (length b) \<and> js_nth a s = js_nth b s"
  show ?case
  proof (cases ?c)
    case True
    have eq: "trim_start a b s = trim_start a b (s + 1)"
      using True by (subst trim_start.simps) (simp only: if_True simp_thms)
    have l: "s < int (length a)" "s < int (length b)" and je: "js_nth a s = js_nth b s"
      using True by blast+
    have "Some (a ! nat s) = Some (b ! nat s)"
      using je unfolding js_nth_Some[OF "1.prems"(1) l(1)] js_nth_Some[OF "1.prems"(1) l(2)] .
    then have e: "a ! nat s = b ! nat s" by simp
    have n: "nat (s + 1) = Suc (nat s)" using "1.prems"(1) by simp
    have la: "nat s < length a" and lb: "nat s < length b" using l "1.prems"(1) by simp_all
    have t: "take (nat (s + 1)) a = take (nat (s + 1)) b"
      unfolding n using "1.prems"(4) e la lb by (simp add: take_Suc_conv_app_nth)
    have p: "0 \<le> s + 1" "s + 1 \<le> int (length a)" "s + 1 \<le> int (length b)"
      using l "1.prems"(1) by linarith+
    from "1.IH"[OF True p t] show ?thesis unfolding eq by linarith
  next
    case False
    have eq: "trim_start a b s = s"
      using False by (subst trim_start.simps) (simp only: if_False simp_thms)
    have "s < int (length a) \<and> s < int (length b) \<longrightarrow> a ! nat s \<noteq> b ! nat s"
      using False "1.prems"(1) by (auto simp: js_nth_def)
    then show ?thesis unfolding eq using "1.prems" by simp
  qed
qed

lemma trim_end_spec:
  assumes "0 \<le> s" "s \<le> m" "m \<le> int (length a)" "s \<le> n" "n \<le> int (length b)"
    and "drop (nat m) a = drop (nat n) b" and "take (nat s) a = take (nat s) b"
    and "distinct a" "distinct b"
    and "trim_end a b s m n = (m0, n0)"
  shows "(s \<le> m0 \<and> m0 \<le> int (length a) \<and> s \<le> n0 \<and> n0 \<le> int (length b) \<and>
          drop (nat m0) a = drop (nat n0) b)
       \<or> (m0 = s - 1 \<and> n0 = s - 1 \<and> a = b)"
  using assms
proof (induction a b s m n rule: trim_end.induct)
  case (1 a b s m n)
  let ?c = "s \<le> m \<and> s \<le> n \<and> js_nth a (m - 1) = js_nth b (n - 1)"
  note pre = "1.prems"
  show ?case
  proof (cases ?c)
    case False
    have "trim_end a b s m n = (m, n)"
      using False by (subst trim_end.simps) (simp only: if_False simp_thms)
    then have "m0 = m" "n0 = n" using pre(10) by simp_all
    then show ?thesis using pre by simp
  next
    case True
    have eq: "trim_end a b s m n = trim_end a b s (m - 1) (n - 1)"
      using True by (subst trim_end.simps) (simp only: if_True simp_thms)
    have e: "js_nth a (m - 1) = js_nth b (n - 1)" using True by blast
    consider (both) "s < m" "s < n" | (none) "m = s" "n = s" | (left) "m = s" "s < n"
      | (right) "s < m" "n = s"
      using pre(2,4) by linarith
    then show ?thesis
    proof cases
      case both
      have ra: "0 \<le> m - 1" "m - 1 < int (length a)" and rb: "0 \<le> n - 1" "n - 1 < int (length b)"
        using both pre(1,3,5) by linarith+
      have v: "a ! nat (m - 1) = b ! nat (n - 1)"
        using e js_nth_Some[OF ra] js_nth_Some[OF rb] by simp
      have da: "drop (nat (m - 1)) a = a ! nat (m - 1) # drop (nat m) a"
      proof -
        have "nat m = Suc (nat (m - 1))" using ra by simp
        moreover have "nat (m - 1) < length a" using ra by simp
        ultimately show ?thesis by (simp add: Cons_nth_drop_Suc)
      qed
      have db: "drop (nat (n - 1)) b = b ! nat (n - 1) # drop (nat n) b"
      proof -
        have "nat n = Suc (nat (n - 1))" using rb by simp
        moreover have "nat (n - 1) < length b" using rb by simp
        ultimately show ?thesis by (simp add: Cons_nth_drop_Suc)
      qed
      have d: "drop (nat (m - 1)) a = drop (nat (n - 1)) b" unfolding da db using v pre(6) by simp
      have p: "s \<le> m - 1" "m - 1 \<le> int (length a)" "s \<le> n - 1" "n - 1 \<le> int (length b)"
        using both ra rb by linarith+
      have r: "trim_end a b s (m - 1) (n - 1) = (m0, n0)" using pre(10) unfolding eq .
      show ?thesis by (rule "1.IH"[OF True pre(1) p d pre(7,8,9) r])
    next
      case none
      have "trim_end a b s (m - 1) (n - 1) = (m - 1, n - 1)"
        using none by (subst trim_end.simps) simp
      then have mn: "m0 = s - 1" "n0 = s - 1" using pre(10) none unfolding eq by simp_all
      have "a = take (nat s) a @ drop (nat s) a" by simp
      also have "\<dots> = take (nat s) b @ drop (nat s) b" using pre(6,7) none by simp
      finally have "a = b" by simp
      then show ?thesis using mn by simp
    next
      case left
      have rb: "0 \<le> n - 1" "n - 1 < int (length b)" using left pre(1,5) by linarith+
      have bn: "js_nth b (n - 1) = Some (b ! nat (n - 1))" by (rule js_nth_Some[OF rb])
      have False
      proof (cases "s = 0")
        case True
        then have "js_nth a (m - 1) = None" using left by (simp add: js_nth_None)
        then show False using e bn by simp
      next
        case False
        then have sp: "0 \<le> s - 1" "s - 1 < int (length a)" "s - 1 < int (length b)"
          using pre(1,3,5) left by linarith+
        have "js_nth a (m - 1) = Some (a ! nat (s - 1))"
          using js_nth_Some[OF sp(1,2)] left by simp
        moreover have "a ! nat (s - 1) = b ! nat (s - 1)"
        proof -
          have k: "nat (s - 1) < nat s" using sp by simp
          have "a ! nat (s - 1) = take (nat s) a ! nat (s - 1)" using k by simp
          also have "\<dots> = take (nat s) b ! nat (s - 1)" unfolding pre(7) ..
          also have "\<dots> = b ! nat (s - 1)" using k by simp
          finally show ?thesis .
        qed
        ultimately have "b ! nat (s - 1) = b ! nat (n - 1)" using e bn by simp
        moreover have "nat (s - 1) < length b" "nat (n - 1) < length b" "nat (s - 1) \<noteq> nat (n - 1)"
          using sp rb left by simp_all
        ultimately show False using pre(9) by (simp add: nth_eq_iff_index_eq)
      qed
      then show ?thesis ..
    next
      case right
      have ra: "0 \<le> m - 1" "m - 1 < int (length a)" using right pre(1,3) by linarith+
      have am: "js_nth a (m - 1) = Some (a ! nat (m - 1))" by (rule js_nth_Some[OF ra])
      have False
      proof (cases "s = 0")
        case True
        then have "js_nth b (n - 1) = None" using right by (simp add: js_nth_None)
        then show False using e am by simp
      next
        case False
        then have sp: "0 \<le> s - 1" "s - 1 < int (length a)" "s - 1 < int (length b)"
          using pre(1,3,5) right by linarith+
        have "js_nth b (n - 1) = Some (b ! nat (s - 1))"
          using js_nth_Some[OF sp(1,3)] right by simp
        moreover have "a ! nat (s - 1) = b ! nat (s - 1)"
        proof -
          have k: "nat (s - 1) < nat s" using sp by simp
          have "a ! nat (s - 1) = take (nat s) a ! nat (s - 1)" using k by simp
          also have "\<dots> = take (nat s) b ! nat (s - 1)" unfolding pre(7) ..
          also have "\<dots> = b ! nat (s - 1)" using k by simp
          finally show ?thesis .
        qed
        ultimately have "a ! nat (m - 1) = a ! nat (s - 1)" using e am by simp
        moreover have "nat (s - 1) < length a" "nat (m - 1) < length a" "nat (m - 1) \<noteq> nat (s - 1)"
          using sp ra right by simp_all
        ultimately show False using pre(8) by (simp add: nth_eq_iff_index_eq)
      qed
      then show ?thesis ..
    qed
  qed
qed

lemma js_slice_range:
  "0 \<le> s \<Longrightarrow> s \<le> e \<Longrightarrow> e \<le> int (length xs) \<Longrightarrow>
   js_slice xs s e = take (nat (e - s)) (drop (nat s) xs)"
  by (simp add: js_slice_def Let_def min_def)

lemma js_slice_empty:
  "0 \<le> s \<Longrightarrow> s = int (length xs) \<Longrightarrow> js_slice xs s (s - 1) = []"
  by (auto simp: js_slice_def Let_def min_def max_def)

lemma split_three:
  assumes "0 \<le> s" "s \<le> e" "e \<le> int (length xs)"
  shows "xs = take (nat s) xs @ take (nat (e - s)) (drop (nat s) xs) @ drop (nat e) xs"
proof -
  have "nat (e - s) + nat s = nat e" using assms by linarith
  then have "drop (nat e) xs = drop (nat (e - s)) (drop (nat s) xs)"
    by (simp only: drop_drop)
  then have "take (nat (e - s)) (drop (nat s) xs) @ drop (nat e) xs = drop (nat s) xs"
    by (simp only: append_take_drop_id)
  then show ?thesis by (simp only: append_take_drop_id)
qed

lemma patchDiff_trimmed:
  assumes "trimmed a b = (s, aa, m, bb, n)"
  shows "patchDiff a b =
     (case diff_loop aa bb (matrix_fill aa bb (nat m) (nat n)) s m n (m + s) 0 []
             (keep_suffix a s m n (int (length a) - 1) []) of
        (r, adds, calls2) \<Rightarrow>
          do_adds bb s r adds (int (length adds) - 1) (int (length adds) - 1)
            (keep_prefix a (s - 1) calls2))"
  unfolding patchDiff_def assms Let_def by (simp split: prod.splits)

lemma trimmed_distinct:
  assumes "distinct a" "distinct b" and t: "trimmed a b = (s, aa, m, bb, n)"
  shows "\<exists>P T. a = P @ aa @ T \<and> b = P @ bb @ T \<and> int (length P) = s \<and>
           m = int (length aa) \<and> n = int (length bb)"
proof -
  define s' where "s' = trim_start a b 0"
  obtain m0 n0 where te: "trim_end a b s' (int (length a)) (int (length b)) = (m0, n0)"
    by (cases "trim_end a b s' (int (length a)) (int (length b))")
  have ts: "0 \<le> s'" "s' \<le> int (length a)" "s' \<le> int (length b)"
    "take (nat s') a = take (nat s') b"
    "s' < int (length a) \<and> s' < int (length b) \<longrightarrow> a ! nat s' \<noteq> b ! nat s'"
    using trim_start_spec[of 0 a b] unfolding s'_def by simp_all
  define E1 where "E1 = (if s' > 0 \<or> m0 < int (length a) then js_slice a s' m0 else a)"
  define E2 where "E2 = (if s' > 0 \<or> n0 < int (length b) then js_slice b s' n0 else b)"
  have "trimmed a b =
      (s', E1, (if s' > 0 \<or> m0 < int (length a) then int (length E1) else m0),
       E2, (if s' > 0 \<or> n0 < int (length b) then int (length E2) else n0))"
    unfolding trimmed_def Let_def s'_def[symmetric] te E1_def E2_def by (simp only: prod.case)
  then have "(s, aa, m, bb, n) =
      (s', E1, (if s' > 0 \<or> m0 < int (length a) then int (length E1) else m0),
       E2, (if s' > 0 \<or> n0 < int (length b) then int (length E2) else n0))"
    using t by (simp only:)
  then have v: "s = s'" "aa = E1"
    "m = (if s' > 0 \<or> m0 < int (length a) then int (length E1) else m0)"
    "bb = E2" "n = (if s' > 0 \<or> n0 < int (length b) then int (length E2) else n0)"
    unfolding prod.inject by blast+
  have vals: "s = s'"
    "aa = (if s' > 0 \<or> m0 < int (length a) then js_slice a s' m0 else a)"
    "m = (if s' > 0 \<or> m0 < int (length a) then int (length aa) else m0)"
    "bb = (if s' > 0 \<or> n0 < int (length b) then js_slice b s' n0 else b)"
    "n = (if s' > 0 \<or> n0 < int (length b) then int (length bb) else n0)"
    using v unfolding E1_def E2_def by blast+
  have "(s' \<le> m0 \<and> m0 \<le> int (length a) \<and> s' \<le> n0 \<and> n0 \<le> int (length b) \<and>
          drop (nat m0) a = drop (nat n0) b)
       \<or> (m0 = s' - 1 \<and> n0 = s' - 1 \<and> a = b)"
    by (rule trim_end_spec[OF ts(1) ts(2) _ ts(3) _ _ ts(4) assms(1,2) te]) simp_all
  then show ?thesis
  proof
    assume ok: "s' \<le> m0 \<and> m0 \<le> int (length a) \<and> s' \<le> n0 \<and> n0 \<le> int (length b) \<and>
          drop (nat m0) a = drop (nat n0) b"
    then have r: "s' \<le> m0" "m0 \<le> int (length a)" "s' \<le> n0" "n0 \<le> int (length b)"
      and d: "drop (nat m0) a = drop (nat n0) b" by blast+
    have aa: "aa = take (nat (m0 - s')) (drop (nat s') a)"
    proof (cases "s' > 0 \<or> m0 < int (length a)")
      case True
      then show ?thesis using vals(2) js_slice_range[OF ts(1) r(1,2)] by simp
    next
      case False
      then have "s' = 0" "m0 = int (length a)" using ts(1) r(2) by linarith+
      then show ?thesis using vals(2) False by simp
    qed
    have bb: "bb = take (nat (n0 - s')) (drop (nat s') b)"
    proof (cases "s' > 0 \<or> n0 < int (length b)")
      case True
      then show ?thesis using vals(4) js_slice_range[OF ts(1) r(3,4)] by simp
    next
      case False
      then have "s' = 0" "n0 = int (length b)" using ts(1) r(4) by linarith+
      then show ?thesis using vals(4) False by simp
    qed
    have la: "int (length aa) = m0 - s'" unfolding aa using r ts(1) by simp
    have lb: "int (length bb) = n0 - s'" unfolding bb using r ts(1) by simp
    have m: "m = int (length aa)"
    proof (cases "s' > 0 \<or> m0 < int (length a)")
      case True then show ?thesis using vals(3) by simp
    next
      case False
      then have "s' = 0" "m0 = int (length a)" using ts(1) r(2) by linarith+
      then show ?thesis using vals(3) False la by simp
    qed
    have n: "n = int (length bb)"
    proof (cases "s' > 0 \<or> n0 < int (length b)")
      case True then show ?thesis using vals(5) by simp
    next
      case False
      then have "s' = 0" "n0 = int (length b)" using ts(1) r(4) by linarith+
      then show ?thesis using vals(5) False lb by simp
    qed
    have a: "a = take (nat s') a @ aa @ drop (nat m0) a"
      unfolding aa by (rule split_three[OF ts(1) r(1,2)])
    have b: "b = take (nat s') a @ bb @ drop (nat m0) a"
      unfolding bb ts(4) d by (rule split_three[OF ts(1) r(3,4)])
    have lp: "int (length (take (nat s') a)) = s" using ts(1,2) vals(1) by simp
    show ?thesis using a b lp m n by blast
  next
    assume ov: "m0 = s' - 1 \<and> n0 = s' - 1 \<and> a = b"
    then have ab: "a = b" and mn: "m0 = s' - 1" "n0 = s' - 1" by blast+
    have sl: "s' = int (length a)" using ts(2,3,5) ab by auto
    have c: "s' > 0 \<or> m0 < int (length a)" "s' > 0 \<or> n0 < int (length b)"
      using mn sl ab by linarith+
    have aa: "aa = []" using vals(2) c mn js_slice_empty[OF ts(1) sl] by simp
    have bb: "bb = []" using vals(4) c mn js_slice_empty[OF ts(1), of b] sl ab by simp
    have m: "m = int (length aa)" using vals(3) c by simp
    have n: "n = int (length bb)" using vals(5) c by simp
    have "a = a @ aa @ []" "b = a @ bb @ []" "int (length a) = s"
      using aa bb ab sl vals(1) by simp_all
    then show ?thesis using m n by blast
  qed
qed

lemma apply_keeps: "\<forall>x\<in>set ks. is_keep x \<Longrightarrow> apply_calls xs ks = xs"
proof (induction ks arbitrary: xs)
  case Nil
  then show ?case by (simp add: apply_calls_def)
next
  case (Cons k ks)
  then have "is_keep k" by simp
  then have "apply_call xs k = xs" by (cases k) (simp_all add: is_keep_def)
  then show ?case using Cons by (simp add: apply_calls_def)
qed

lemma apply_calls_append: "apply_calls xs (cs @ ds) = apply_calls (apply_calls xs cs) ds"
  by (simp add: apply_calls_def)

lemma keep_not_add: "is_keep x \<Longrightarrow> \<not> is_add x"
  by (cases x) (simp_all add: is_keep_def is_add_def)

lemma apply_adds:
  assumes "int (length P) = s" and "\<forall>n\<in>set ns. 0 \<le> n"
  shows "foldl apply_call (P @ M) (map (\<lambda>n. Add (Some (bb ! nat n)) (n + s) (n + s)) ns) =
         P @ foldl (ins bb) M ns"
  using assms(2)
proof (induction ns arbitrary: M)
  case Nil
  then show ?case by simp
next
  case (Cons n ns)
  have n0: "0 \<le> n" using Cons.prems by simp
  have k: "nat (n + s) = length P + nat n" using n0 assms(1) by linarith
  have "apply_call (P @ M) (Add (Some (bb ! nat n)) (n + s) (n + s)) = P @ ins bb M n"
    by (simp add: ins_def k)
  then show ?case using Cons by simp
qed

text \<open>
  For lists without repeated resource ids the diff is right: applying the emitted operations
  to \<open>a\<close>, each at its emitted index, gives \<open>b\<close>, and every add is emitted after the last
  remove. The values of the matrix play no part in this; they only decide which of the
  possible edit scripts is emitted.
\<close>

theorem patchDiff_distinct:
  assumes "distinct a" and "distinct b"
  shows "apply_calls a (patchDiff a b) = b
       \<and> (\<exists>R A. patchDiff a b = R @ A \<and> (\<forall>x\<in>set R. \<not> is_add x) \<and> (\<forall>x\<in>set A. is_add x))"
proof -
  obtain s aa m bb n where t: "trimmed a b = (s, aa, m, bb, n)"
    by (cases "trimmed a b") auto
  from trimmed_distinct[OF assms t] obtain P T where
    a: "a = P @ aa @ T" and b: "b = P @ bb @ T" and lp: "int (length P) = s"
    and m: "m = int (length aa)" and n: "n = int (length bb)" by blast
  have s0: "0 \<le> s" using lp by linarith
  define c where "c = matrix_fill aa bb (nat m) (nat n)"
  obtain ks1 where k1: "keep_suffix a s m n (int (length a) - 1) [] = ks1"
    and k1k: "\<forall>x\<in>set ks1. is_keep x"
    using keep_suffix_keeps[of a s m n "int (length a) - 1" "[]"] by auto
  obtain r adds calls2 where dl: "diff_loop aa bb c s m n (m + s) 0 [] ks1 = (r, adds, calls2)"
    by (cases "diff_loop aa bb c s m n (m + s) 0 [] ks1") auto
  have "loop_post aa bb s m n 0 [] ks1 r adds calls2"
    by (rule diff_loop_post[OF _ _ _ _ s0 dl]) (simp_all add: m n)
  then obtain K kept where
    c2: "calls2 = ks1 @ K"
    and ln: "int (length adds) = n - int (length kept)"
    and kk: "\<forall>x\<in>set K. \<not> is_add x"
    and ap: "\<And>P T. int (length P) = s \<Longrightarrow> apply_calls (P @ take (nat m) aa @ T) K = P @ kept @ T"
    and pos: "\<And>e. e < length adds \<Longrightarrow> (case adds ! e of (n', idx, re) \<Rightarrow>
            0 \<le> n' \<and> n' < n \<and> idx - r + re + (int (length adds) - 1 - int e) = n' + s)"
    and st: "\<And>Z. foldl (ins bb) (kept @ Z) (rev (map fst adds)) = take (nat n) bb @ Z"
    unfolding loop_post_def by auto
  obtain ks2 where k2: "keep_prefix a (s - 1) calls2 = calls2 @ ks2"
    and k2k: "\<forall>x\<in>set ks2. is_keep x"
    using keep_prefix_keeps[of a "s - 1" calls2] by auto
  define A where "A = map (\<lambda>k. case adds ! k of (n', idx, j) \<Rightarrow>
      Add (js_nth bb n') (n' + s) (idx - r + j + (int (length adds) - 1) - int k))
      (rev [0..<length adds])"
  have pd: "patchDiff a b = (ks1 @ K @ ks2) @ A"
  proof -
    have "nat (int (length adds) - 1 + 1) = length adds" by simp
    then have "do_adds bb s r adds (int (length adds) - 1) (int (length adds) - 1)
        (calls2 @ ks2) = (calls2 @ ks2) @ A"
      unfolding A_def using do_adds_eq[of "int (length adds) - 1" bb s r adds
          "int (length adds) - 1" "calls2 @ ks2"] by simp
    moreover have "patchDiff a b =
        do_adds bb s r adds (int (length adds) - 1) (int (length adds) - 1)
          (keep_prefix a (s - 1) calls2)"
      unfolding patchDiff_trimmed[OF t] c_def[symmetric] k1 dl by simp
    ultimately have "patchDiff a b = (calls2 @ ks2) @ A" unfolding k2 by simp
    then show ?thesis unfolding c2 by simp
  qed
  have el: "\<And>k. k < length adds \<Longrightarrow>
      (case adds ! k of (n', idx, j) \<Rightarrow>
         Add (js_nth bb n') (n' + s) (idx - r + j + (int (length adds) - 1) - int k)) =
      Add (Some (bb ! nat (fst (adds ! k)))) (fst (adds ! k) + s) (fst (adds ! k) + s)"
  proof -
    fix k assume k: "k < length adds"
    obtain n' idx j where e: "adds ! k = (n', idx, j)" by (cases "adds ! k")
    from pos[OF k] e have p: "0 \<le> n'" "n' < n"
      "idx - r + j + (int (length adds) - 1 - int k) = n' + s" by simp_all
    have "js_nth bb n' = Some (bb ! nat n')" using p n by (simp add: js_nth_Some)
    moreover have "idx - r + j + (int (length adds) - 1) - int k = n' + s" using p(3) by linarith
    ultimately show "(case adds ! k of (n', idx, j) \<Rightarrow>
         Add (js_nth bb n') (n' + s) (idx - r + j + (int (length adds) - 1) - int k)) =
      Add (Some (bb ! nat (fst (adds ! k)))) (fst (adds ! k) + s) (fst (adds ! k) + s)"
      unfolding e by simp
  qed
  have A2: "A = map (\<lambda>n'. Add (Some (bb ! nat n')) (n' + s) (n' + s)) (rev (map fst adds))"
  proof -
    have "A = map (\<lambda>k. Add (Some (bb ! nat (fst (adds ! k)))) (fst (adds ! k) + s)
        (fst (adds ! k) + s)) (rev [0..<length adds])"
      unfolding A_def by (rule map_cong) (auto simp: el)
    also have "\<dots> = map (\<lambda>n'. Add (Some (bb ! nat n')) (n' + s) (n' + s))
        (map (\<lambda>k. fst (adds ! k)) (rev [0..<length adds]))" by (simp add: comp_def)
    also have "map (\<lambda>k. fst (adds ! k)) (rev [0..<length adds]) = rev (map fst adds)"
    proof -
      have "map (\<lambda>k. fst (adds ! k)) [0..<length adds] = map fst (map (\<lambda>k. adds ! k) [0..<length adds])"
        by (simp add: comp_def)
      also have "\<dots> = map fst adds" by (simp only: map_nth)
      finally have "rev (map (\<lambda>k. fst (adds ! k)) [0..<length adds]) = rev (map fst adds)"
        by (simp only:)
      then show ?thesis by (simp only: rev_map)
    qed
    finally show ?thesis .
  qed
  have nn: "\<forall>n'\<in>set (rev (map fst adds)). 0 \<le> n'"
  proof
    fix n' assume "n' \<in> set (rev (map fst adds))"
    then obtain k where k: "k < length adds" and f: "n' = fst (adds ! k)"
      by (auto simp: in_set_conv_nth)
    obtain x idx j where e: "adds ! k = (x, idx, j)" by (cases "adds ! k")
    from pos[OF k] e f show "0 \<le> n'" by simp
  qed
  have isA: "\<forall>x\<in>set A. is_add x" unfolding A2 by (auto simp: is_add_def)
  have notR: "\<forall>x\<in>set (ks1 @ K @ ks2). \<not> is_add x"
    using k1k k2k kk keep_not_add by auto
  have ta: "take (nat m) aa = aa" using m by simp
  have tb: "take (nat n) bb = bb" using n by simp
  have 1: "apply_calls a ks1 = a" by (rule apply_keeps[OF k1k])
  have 2: "apply_calls a K = P @ kept @ T" using ap[OF lp, of T] unfolding ta a[symmetric] .
  have 3: "apply_calls (P @ kept @ T) ks2 = P @ kept @ T" by (rule apply_keeps[OF k2k])
  have 4: "apply_calls (P @ kept @ T) A = P @ bb @ T"
    unfolding apply_calls_def A2 apply_adds[OF lp nn] st tb ..
  have "apply_calls a (patchDiff a b) = b"
    unfolding pd apply_calls_append 1 2 3 4 b[symmetric] ..
  then show ?thesis using pd isA notR by blast
qed

end
